theory Spec2Isabelle
  imports Main "HOL-Library.AList"
begin

section \<open>JavaScript values and the object store\<close>

text \<open>
  The validator is JavaScript: its arguments are dynamically typed, it tests them with
  \<open>typeof\<close>, truthiness and strict equality, and it writes into an object that the
  caller may have supplied.  Primitive values are a datatype; objects live in a store and
  are named by references, so that "the same object" (aliasing) can be stated.

  \<^item> \<open>Num s\<close> is the Number whose string coercion is \<open>s\<close>: \<open>Num ''5''\<close>,
    \<open>Num ''0.5''\<close>, \<open>Num ''1e+21''\<close>, \<open>Num ''NaN''\<close>.  The validator does three
    things with a number: it asks for its \<open>typeof\<close>, tests its truthiness and coerces
    it to a string.  The text decides all three (both zeros print as \<open>0\<close>), so a
    Number is taken by its text and no floating-point printing is modelled.
  \<^item> Symbols and BigInts do not occur.
\<close>

type_synonym addr = nat

datatype prim = Undefined | Null | Bool bool | Num string | Str string

datatype jsval = Prim prim | Ref addr

text \<open>
  The standard prototypes that a property read can reach, and the prototype of an object:
  none (\<open>Object.create(null)\<close>), one of the standard prototypes, or another stored
  object.
\<close>

datatype intrinsic =
  ObjectPrototype | FunctionPrototype | NumberPrototype | StringPrototype | BooleanPrototype

datatype prototype = NoPrototype | Builtin intrinsic | Stored addr

text \<open>
  A stored object:
  \<^item> whether it is callable (\<open>typeof\<close> gives \<open>function\<close>);
  \<^item> the text that string coercion (a template literal) produces for it;
  \<^item> its own properties, in the order in which the object lists them;
  \<^item> its prototype;
  \<^item> which standard prototype the object itself is, if any;
  \<^item> the own properties that are read-only (\<open>length\<close> and \<open>name\<close> of a function,
    every property of a frozen object);
  \<^item> whether properties can be added (not so for a frozen or sealed object).

  Accessor properties (among them \<open>__proto__\<close>), proxies, read-only properties that are
  inherited, and enumerable properties added to the standard prototypes are not modelled:
  the names that occur are taken to be names of data properties.
\<close>

record hobj =
  callable :: bool
  repr :: string
  props :: "(string \<times> jsval) list"
  proto :: prototype
  intrinsic_name :: "intrinsic option"
  readonly :: "string list"
  extensible :: bool

type_synonym heap = "hobj list"

text \<open>The object literal \<open>{}\<close>.\<close>

definition empty_object :: hobj where
  "empty_object =
     \<lparr>callable = False, repr = ''[object Object]'', props = [],
      proto = Builtin ObjectPrototype, intrinsic_name = None, readonly = [], extensible = True\<rparr>"

text \<open>
  A JavaScript program holds no dangling reference.  The store is total all the same: an
  address beyond its end reads as the empty object, and a write there has no effect.
\<close>

definition obj_at :: "heap \<Rightarrow> addr \<Rightarrow> hobj" where
  "obj_at h a = (if a < length h then h ! a else empty_object)"

datatype jstype = TUndefined | TObject | TBoolean | TNumber | TString | TFunction

fun typeof_prim :: "prim \<Rightarrow> jstype" where
  "typeof_prim Undefined = TUndefined"
| "typeof_prim Null = TObject"
| "typeof_prim (Bool b) = TBoolean"
| "typeof_prim (Num n) = TNumber"
| "typeof_prim (Str s) = TString"

fun typeof :: "heap \<Rightarrow> jsval \<Rightarrow> jstype" where
  "typeof h (Prim p) = typeof_prim p"
| "typeof h (Ref a) = (if callable (obj_at h a) then TFunction else TObject)"

fun type_name :: "jstype \<Rightarrow> string" where
  "type_name TUndefined = ''undefined''"
| "type_name TObject = ''object''"
| "type_name TBoolean = ''boolean''"
| "type_name TNumber = ''number''"
| "type_name TString = ''string''"
| "type_name TFunction = ''function''"

text \<open>
  Truthiness, as \<open>!x\<close>, \<open>x || y\<close> and \<open>if (x)\<close> test it.  The falsy numbers are the
  zeros and \<open>NaN\<close>.
\<close>

fun truthy_prim :: "prim \<Rightarrow> bool" where
  "truthy_prim Undefined = False"
| "truthy_prim Null = False"
| "truthy_prim (Bool b) = b"
| "truthy_prim (Num n) = (n \<noteq> ''0'' \<and> n \<noteq> ''NaN'')"
| "truthy_prim (Str s) = (s \<noteq> [])"

fun truthy :: "jsval \<Rightarrow> bool" where
  "truthy (Prim p) = truthy_prim p"
| "truthy (Ref a) = True"

text \<open>String coercion, as a template literal \<open>`${x}`\<close> and a property key perform it.\<close>

fun to_string_prim :: "prim \<Rightarrow> string" where
  "to_string_prim Undefined = ''undefined''"
| "to_string_prim Null = ''null''"
| "to_string_prim (Bool b) = (if b then ''true'' else ''false'')"
| "to_string_prim (Num n) = n"
| "to_string_prim (Str s) = s"

fun to_string :: "heap \<Rightarrow> jsval \<Rightarrow> string" where
  "to_string h (Prim p) = to_string_prim p"
| "to_string h (Ref a) = repr (obj_at h a)"

section \<open>Errors\<close>

text \<open>
  \<open>Throw c m\<close> is \<open>throw new c(m)\<close> of the source.  \<open>EngineTypeError\<close> is the
  TypeError that the engine itself raises: when a property of \<open>undefined\<close> or
  \<open>null\<close> is read, and when strict code assigns to a property that cannot be written.
  Its message is the engine's own.
\<close>

datatype error_class = Error | ParameterValidationError | ErrorSubclass string

datatype thrown = Throw error_class string | EngineTypeError

section \<open>The order of own properties\<close>

text \<open>
  An object lists its own properties (to \<open>for ... in\<close> and to \<open>Object.keys\<close>) with
  the array indices first, in ascending order, and then the other names in the order in
  which they were added.  An array index is the decimal text, without a leading zero, of
  a whole number below \<open>4294967295\<close>.
\<close>

definition decimal :: "string \<Rightarrow> nat" where
  "decimal key = foldl (\<lambda>n c. 10 * n + (of_char c - 48)) 0 key"

definition array_index :: "string \<Rightarrow> nat option" where
  "array_index key =
     (if key \<noteq> [] \<and> list_all (\<lambda>c. c \<in> set ''0123456789'') key
         \<and> (hd key \<noteq> CHR ''0'' \<or> key = ''0'')
         \<and> decimal key < 4294967295
      then Some (decimal key)
      else None)"

definition listed_before :: "string \<Rightarrow> string \<Rightarrow> bool" where
  "listed_before key k =
     (case array_index key of
        None \<Rightarrow> False
      | Some i \<Rightarrow> (case array_index k of None \<Rightarrow> True | Some j \<Rightarrow> i < j))"

text \<open>
  \<open>object[key] = v\<close> on the list of own properties: a new property takes its place in
  the list, an existing one keeps its place and gets the value.
\<close>

fun add_own :: "string \<Rightarrow> 'a \<Rightarrow> (string \<times> 'a) list \<Rightarrow> (string \<times> 'a) list" where
  "add_own key v [] = [(key, v)]"
| "add_own key v ((k, w) # ps) =
     (if listed_before key k then (key, v) # (k, w) # ps else (k, w) # add_own key v ps)"

definition define_own :: "string \<Rightarrow> 'a \<Rightarrow> (string \<times> 'a) list \<Rightarrow> (string \<times> 'a) list" where
  "define_own key v ps =
     (if map_of ps key = None then add_own key v ps else AList.update key v ps)"

section \<open>Property reads\<close>

text \<open>
  The address of a standard prototype: the first stored object that is marked as that
  prototype.  A store that holds none stands for a realm whose prototype has no property
  of interest.
\<close>

fun intrinsic_from :: "addr \<Rightarrow> hobj list \<Rightarrow> intrinsic \<Rightarrow> addr option" where
  "intrinsic_from a [] i = None"
| "intrinsic_from a (ob # obs) i =
     (if intrinsic_name ob = Some i then Some a else intrinsic_from (Suc a) obs i)"

definition intrinsic_at :: "heap \<Rightarrow> intrinsic \<Rightarrow> addr option" where
  "intrinsic_at h i = intrinsic_from 0 h i"

definition parent :: "heap \<Rightarrow> addr \<Rightarrow> addr option" where
  "parent h a =
     (case proto (obj_at h a) of
        NoPrototype \<Rightarrow> None
      | Builtin i \<Rightarrow> intrinsic_at h i
      | Stored b \<Rightarrow> Some b)"

text \<open>
  \<open>object[key]\<close>: the own property if there is one, else the prototype's, and so on
  along the chain.  Addresses follow the age of the objects, and a prototype is older than
  the objects that inherit from it (a prototype chain has no cycle, so every store can be
  numbered that way): the chain is followed to smaller addresses.
\<close>

function lookup :: "heap \<Rightarrow> addr \<Rightarrow> string \<Rightarrow> jsval" where
  "lookup h a key =
     (case map_of (props (obj_at h a)) key of
        Some v \<Rightarrow> v
      | None \<Rightarrow>
          (case parent h a of
             Some b \<Rightarrow> if b < a then lookup h b key else Prim Undefined
           | None \<Rightarrow> Prim Undefined))"
  by pat_completeness auto

termination
  by (relation "measure (\<lambda>(h, a, key). a)") auto

declare lookup.simps [simp del]

text \<open>What a primitive inherits from the prototype of its kind.\<close>

definition inherited :: "heap \<Rightarrow> intrinsic \<Rightarrow> string \<Rightarrow> jsval" where
  "inherited h i key =
     (case intrinsic_at h i of Some b \<Rightarrow> lookup h b key | None \<Rightarrow> Prim Undefined)"

text \<open>The decimal digits of a length.\<close>

fun digits :: "nat \<Rightarrow> string" where
  "digits n =
     (if n < 10 then [''0123456789'' ! n]
      else digits (n div 10) @ [''0123456789'' ! (n mod 10)])"

declare digits.simps [simp del]

text \<open>The own properties of a string: \<open>length\<close> and its indices.\<close>

definition string_own :: "string \<Rightarrow> string \<Rightarrow> jsval option" where
  "string_own s key =
     (if key = ''length'' then Some (Prim (Num (digits (length s))))
      else case array_index key of
             Some i \<Rightarrow> if i < length s then Some (Prim (Str [s ! i])) else None
           | None \<Rightarrow> None)"

text \<open>
  \<open>paramsProvided[paramName]\<close>.  Reading a property of \<open>undefined\<close> or \<open>null\<close>
  throws; a boolean, a number and a string read through the prototype of their kind.
\<close>

fun get_prop :: "heap \<Rightarrow> jsval \<Rightarrow> string \<Rightarrow> thrown + jsval" where
  "get_prop h (Prim Undefined) key = Inl EngineTypeError"
| "get_prop h (Prim Null) key = Inl EngineTypeError"
| "get_prop h (Prim (Bool b)) key = Inr (inherited h BooleanPrototype key)"
| "get_prop h (Prim (Num n)) key = Inr (inherited h NumberPrototype key)"
| "get_prop h (Prim (Str s)) key =
     Inr (case string_own s key of Some v \<Rightarrow> v | None \<Rightarrow> inherited h StringPrototype key)"
| "get_prop h (Ref a) key = Inr (lookup h a key)"

section \<open>Property writes\<close>

text \<open>
  \<open>target[key] = v\<close> in strict code (a class body is strict).  The assignment throws a
  TypeError and writes nothing when the property is read-only, and when it is new and the
  object cannot be extended.  The validator assigns only to the object that
  \<open>_getExtractedParamsObject\<close> returned, which is a reference.
\<close>

definition refuses :: "hobj \<Rightarrow> string \<Rightarrow> bool" where
  "refuses ob key \<longleftrightarrow>
     key \<in> set (readonly ob) \<or> (map_of (props ob) key = None \<and> \<not> extensible ob)"

fun set_prop :: "heap \<Rightarrow> jsval \<Rightarrow> string \<Rightarrow> jsval \<Rightarrow> thrown + heap" where
  "set_prop h (Ref a) key v =
     (if a < length h
      then (if refuses (h ! a) key then Inl EngineTypeError
            else Inr (h[a := (h ! a)\<lparr>props := define_own key v (props (h ! a))\<rparr>]))
      else Inr h)"
| "set_prop h (Prim p) key v = Inr h"

section \<open>The validator\<close>

text \<open>
  An instance holds the optional \<open>_defaultValidation\<close> set by the constructor.
  Validation functions are modelled as total functions from the parameter's value to the
  value they return: they terminate, throw nothing and change no object.
\<close>

record ParameterValidator =
  stored_defaultValidation :: "(jsval \<Rightarrow> jsval) option"

text \<open>
  The constructor's \<open>options\<close>: \<open>None\<close> when omitted or falsy, otherwise what
  \<open>options.defaultValidation\<close> holds.
\<close>

datatype defaultValidation_option = DvUndefined | DvFunction "jsval \<Rightarrow> jsval" | DvOther

definition new_ParameterValidator :: "defaultValidation_option option \<Rightarrow> thrown + ParameterValidator" where
  "new_ParameterValidator options =
     (case options of
        None \<Rightarrow> Inr \<lparr>stored_defaultValidation = None\<rparr>
      | Some DvUndefined \<Rightarrow> Inr \<lparr>stored_defaultValidation = None\<rparr>
      | Some (DvFunction f) \<Rightarrow> Inr \<lparr>stored_defaultValidation = Some f\<rparr>
      | Some DvOther \<Rightarrow>
          Inl (Throw ParameterValidationError
                 ''The optional defaultValidation parameter provided is not a function.''))"

text \<open>The singleton behind the exported \<open>validate\<close> and \<open>validateAsync\<close>.\<close>

definition parameterValidator :: ParameterValidator where
  "parameterValidator = \<lparr>stored_defaultValidation = None\<rparr>"

definition isDefined :: "jsval \<Rightarrow> jsval" where
  "isDefined v = Prim (Bool (v \<noteq> Prim Undefined))"

definition defaultValidation :: "ParameterValidator \<Rightarrow> jsval \<Rightarrow> jsval" where
  "defaultValidation pv =
     (case stored_defaultValidation pv of Some f \<Rightarrow> f | None \<Rightarrow> isDefined)"

text \<open>The pair \<open>{errors, params}\<close> that both rule helpers return.\<close>

record validationResult =
  errors :: "string list"
  params :: "(string \<times> jsval) list"

definition quote :: string where
  "quote = [CHR 0x27]"

text \<open>
  \<open>_executeValidationFunction\<close>.  \<open>validationFunction\<close> is \<open>None\<close> when
  \<open>typeof validationFunction !== 'function'\<close>.
\<close>

definition executeValidationFunction ::
  "heap \<Rightarrow> jsval \<Rightarrow> string \<Rightarrow> (jsval \<Rightarrow> jsval) option \<Rightarrow> thrown + validationResult" where
  "executeValidationFunction h paramsProvided paramName validationFunction =
     (case validationFunction of
        None \<Rightarrow>
          Inl (Throw Error (''A paramRequirement value provided for the parameter ''
                 @ paramName @ '' is not a function.''))
      | Some f \<Rightarrow>
          (case get_prop h paramsProvided paramName of
             Inl e \<Rightarrow> Inl e
           | Inr v \<Rightarrow>
               if f v = Prim (Bool True)
               then Inr \<lparr>errors = [], params = define_own paramName v []\<rparr>
               else Inr \<lparr>errors = [''Invalid value of '' @ quote @ to_string h v @ quote
                                    @ '' was provided for parameter '' @ quote @ paramName
                                    @ quote @ ''.''],
                         params = []\<rparr>))"

text \<open>
  \<open>_performLogicalOrParamValidation\<close>: the first loop collects the parameters whose
  value the default validation accepts (a truthy result is enough here), the second builds
  the message.
\<close>

fun collect_valid ::
  "heap \<Rightarrow> (jsval \<Rightarrow> jsval) \<Rightarrow> jsval \<Rightarrow> jsval list \<Rightarrow> (string \<times> jsval) list
     \<Rightarrow> thrown + (string \<times> jsval) list" where
  "collect_valid h isValid paramsProvided [] extractedParams = Inr extractedParams"
| "collect_valid h isValid paramsProvided (paramName # rest) extractedParams =
     (case get_prop h paramsProvided (to_string h paramName) of
        Inl e \<Rightarrow> Inl e
      | Inr v \<Rightarrow>
          collect_valid h isValid paramsProvided rest
            (if truthy (isValid v) then define_own (to_string h paramName) v extractedParams
             else extractedParams))"

definition one_of_message :: "heap \<Rightarrow> jsval list \<Rightarrow> string" where
  "one_of_message h paramNames =
     (let errorMessage =
            foldl (\<lambda>m paramName. m @ quote @ to_string h paramName @ quote @ '', '')
              ''One of the following parameters must be included: '' paramNames
      in take (length errorMessage - 2) errorMessage @ ''.'')"

definition performLogicalOrParamValidation ::
  "ParameterValidator \<Rightarrow> heap \<Rightarrow> jsval \<Rightarrow> jsval list \<Rightarrow> thrown + validationResult" where
  "performLogicalOrParamValidation pv h paramsProvided paramNames =
     (case collect_valid h (defaultValidation pv) paramsProvided paramNames [] of
        Inl e \<Rightarrow> Inl e
      | Inr extractedParams \<Rightarrow>
          Inr \<lparr>errors = (if length extractedParams = 0 then [one_of_message h paramNames] else []),
               params = extractedParams\<rparr>)"

text \<open>
  \<open>_assignProperties\<close>: a \<open>for ... in\<close> over the properties to add, in the order in
  which that object lists them.  An assignment that throws ends the loop; what was
  assigned before stays.
\<close>

fun assignProperties ::
  "heap \<Rightarrow> jsval \<Rightarrow> (string \<times> jsval) list \<Rightarrow> string \<Rightarrow> heap \<times> thrown option" where
  "assignProperties h targetObject [] prefix = (h, None)"
| "assignProperties h targetObject ((propertyName, v) # rest) prefix =
     (case set_prop h targetObject (prefix @ propertyName) v of
        Inl e \<Rightarrow> (h, Some e)
      | Inr h' \<Rightarrow> assignProperties h' targetObject rest prefix)"

text \<open>\<open>_getExtractedParamsObject\<close>; \<open>return {}\<close> allocates a new object.\<close>

definition getExtractedParamsObject :: "heap \<Rightarrow> jsval \<Rightarrow> thrown + heap \<times> jsval" where
  "getExtractedParamsObject h extractedParams =
     (if extractedParams \<in> set [Prim Null, Prim Undefined]
      then Inr (h @ [empty_object], Ref (length h))
      else if typeof h extractedParams \<in> set [TObject, TFunction]
      then Inr (h, extractedParams)
      else Inl (Throw Error (''Invalid value of '' @ quote @ to_string h extractedParams @ quote
                  @ '' was provided for the extractedParams parameter.'')))"

text \<open>
  The \<open>options\<close> argument of \<open>validate\<close> is an object (\<open>{}\<close> when omitted) with the
  properties \<open>addPrefix\<close> and \<open>errorClass\<close>; a property that is absent reads as
  \<open>undefined\<close>.  An \<open>options\<close> argument that is no object is not modelled.
  \<open>ClassValue c\<close> is a value that passes the test
  \<open>errorClass === Error || errorClass.prototype instanceof Error\<close>: \<open>Error\<close> itself or
  a class derived from it.  \<open>OtherValue v\<close> is one that does not.
\<close>

datatype errorClass_value = ClassValue error_class | OtherValue jsval

record options =
  addPrefix :: jsval
  errorClass :: errorClass_value

definition default_options :: options where
  "default_options = \<lparr>addPrefix = Prim Undefined, errorClass = OtherValue (Prim Undefined)\<rparr>"

text \<open>
  \<open>_getValidationErrorSubclass\<close>.  Reading \<open>prototype\<close> of \<open>null\<close> makes the engine
  throw.
\<close>

definition getValidationErrorSubclass :: "heap \<Rightarrow> options \<Rightarrow> thrown + error_class" where
  "getValidationErrorSubclass h opts =
     (case errorClass opts of
        OtherValue (Prim Undefined) \<Rightarrow> Inr ParameterValidationError
      | ClassValue c \<Rightarrow> Inr c
      | OtherValue (Prim Null) \<Rightarrow> Inl EngineTypeError
      | OtherValue v \<Rightarrow>
          Inl (Throw Error (''The errorClass provided was of type '' @ type_name (typeof h v)
                 @ '' and was not an Error subclass.'')))"

text \<open>
  A rule descriptor, by what \<open>Array.isArray\<close> and \<open>typeof\<close> say about it: an array
  with its elements, any other object with the entries that \<open>for ... in\<close> enumerates
  (a value that is not a function is \<open>None\<close>), a function, or a primitive.  Descriptors
  are not changed by the call: none of them is the output target.
\<close>

datatype requirement =
    ReqArray "jsval list"
  | ReqObject "(string \<times> (jsval \<Rightarrow> jsval) option) list"
  | ReqFunction
  | ReqPrim prim

fun isArray :: "requirement \<Rightarrow> bool" where
  "isArray (ReqArray xs) = True"
| "isArray r = False"

fun elements :: "requirement \<Rightarrow> jsval list" where
  "elements (ReqArray xs) = xs"
| "elements r = []"

fun typeof_requirement :: "requirement \<Rightarrow> jstype" where
  "typeof_requirement (ReqArray xs) = TObject"
| "typeof_requirement (ReqObject entries) = TObject"
| "typeof_requirement ReqFunction = TFunction"
| "typeof_requirement (ReqPrim p) = typeof_prim p"

text \<open>What \<open>for (let paramName in paramRequirement)\<close> visits; nothing for an empty
  array and for \<open>null\<close>.\<close>

fun for_in :: "requirement \<Rightarrow> (string \<times> (jsval \<Rightarrow> jsval) option) list" where
  "for_in (ReqObject entries) = entries"
| "for_in r = []"

fun string_of :: "requirement \<Rightarrow> string" where
  "string_of (ReqPrim (Str s)) = s"
| "string_of r = []"

text \<open>
  The state of the pass over the rules is the store and the \<open>errors\<close> array; a throw
  leaves the store as it is at that moment.
\<close>

fun validate_entries ::
  "heap \<Rightarrow> jsval \<Rightarrow> jsval \<Rightarrow> string \<Rightarrow> (string \<times> (jsval \<Rightarrow> jsval) option) list
     \<Rightarrow> string list \<Rightarrow> heap \<times> (thrown + string list)" where
  "validate_entries h paramsProvided extractedParams prefix [] errs = (h, Inr errs)"
| "validate_entries h paramsProvided extractedParams prefix ((paramName, validationFunction) # rest) errs =
     (case executeValidationFunction h paramsProvided paramName validationFunction of
        Inl e \<Rightarrow> (h, Inl e)
      | Inr validationResult \<Rightarrow>
          (case assignProperties h extractedParams (params validationResult) prefix of
             (h', Some e) \<Rightarrow> (h', Inl e)
           | (h', None) \<Rightarrow>
               validate_entries h' paramsProvided extractedParams prefix rest
                 (errs @ errors validationResult)))"

fun validate_requirements ::
  "ParameterValidator \<Rightarrow> heap \<Rightarrow> jsval \<Rightarrow> jsval \<Rightarrow> string \<Rightarrow> requirement list
     \<Rightarrow> string list \<Rightarrow> heap \<times> (thrown + string list)" where
  "validate_requirements pv h paramsProvided extractedParams prefix [] errs = (h, Inr errs)"
| "validate_requirements pv h paramsProvided extractedParams prefix (paramRequirement # rest) errs =
     (if isArray paramRequirement \<and> length (elements paramRequirement) \<noteq> 0 then
        (case performLogicalOrParamValidation pv h paramsProvided (elements paramRequirement) of
           Inl e \<Rightarrow> (h, Inl e)
         | Inr validationResult \<Rightarrow>
             (case assignProperties h extractedParams (params validationResult) prefix of
                (h', Some e) \<Rightarrow> (h', Inl e)
              | (h', None) \<Rightarrow>
                  validate_requirements pv h' paramsProvided extractedParams prefix rest
                    (errs @ errors validationResult)))
      else if typeof_requirement paramRequirement = TObject then
        (case validate_entries h paramsProvided extractedParams prefix (for_in paramRequirement) errs of
           (h', Inl e) \<Rightarrow> (h', Inl e)
         | (h', Inr errs') \<Rightarrow>
             validate_requirements pv h' paramsProvided extractedParams prefix rest errs')
      else if typeof_requirement paramRequirement = TString \<and> string_of paramRequirement \<noteq> [] then
        (case executeValidationFunction h paramsProvided (string_of paramRequirement)
                (Some (defaultValidation pv)) of
           Inl e \<Rightarrow> (h, Inl e)
         | Inr validationResult \<Rightarrow>
             (case assignProperties h extractedParams (params validationResult) prefix of
                (h', Some e) \<Rightarrow> (h', Inl e)
              | (h', None) \<Rightarrow>
                  validate_requirements pv h' paramsProvided extractedParams prefix rest
                    (errs @ errors validationResult)))
      else validate_requirements pv h paramsProvided extractedParams prefix rest errs)"

text \<open>The message of the aggregate error: every error followed by a space, then
  \<open>slice(0, -1)\<close>.\<close>

definition aggregate_message :: "string list \<Rightarrow> string" where
  "aggregate_message errs = butlast (foldl (\<lambda>errorMessage error. errorMessage @ error @ '' '') [] errs)"

text \<open>\<open>paramRequirements\<close>: an array of descriptors, or a value that is no array.\<close>

datatype requirements = NotArray | Array "requirement list"

definition validate ::
  "ParameterValidator \<Rightarrow> heap \<Rightarrow> jsval \<Rightarrow> requirements \<Rightarrow> jsval \<Rightarrow> options
     \<Rightarrow> heap \<times> (thrown + jsval)" where
  "validate pv h paramsProvided paramRequirements extractedParams opts =
     (case getExtractedParamsObject h extractedParams of
        Inl e \<Rightarrow> (h, Inl e)
      | Inr (h1, target) \<Rightarrow>
          (case getValidationErrorSubclass h1 opts of
             Inl e \<Rightarrow> (h1, Inl e)
           | Inr ValidationErrorSubclass \<Rightarrow>
               if \<not> truthy paramsProvided
               then (h1, Inl (Throw ValidationErrorSubclass ''A params object is required.''))
               else (case paramRequirements of
                  NotArray \<Rightarrow> (h1, Inl (Throw Error ''paramRequirements must be an array.''))
                | Array reqs \<Rightarrow>
                    (case (if truthy (addPrefix opts) then addPrefix opts else Prim (Str [])) of
                       Prim (Str prefix) \<Rightarrow>
                         (case validate_requirements pv h1 paramsProvided target prefix reqs [] of
                            (h2, Inl e) \<Rightarrow> (h2, Inl e)
                          | (h2, Inr errs) \<Rightarrow>
                              if length errs \<noteq> 0
                              then (h2, Inl (Throw ValidationErrorSubclass (aggregate_message errs)))
                              else (h2, Inr target))
                     | _ \<Rightarrow> (h1, Inl (Throw Error ''addPrefix option must be a string if provided.''))))))"

section \<open>The deferred variant\<close>

text \<open>
  \<open>validateAsync\<close> returns \<open>Promise.resolve().then(() => this.validate(...args))\<close>.
  The call itself only creates the promise; the callback runs later (the store is taken
  as it is at that moment), and the promise settles by the resolution procedure of
  promises: a throw rejects it with the thrown
  value; a returned value that is an object with a callable \<open>then\<close> (a thenable) is
  followed instead of stored; any other returned value fulfils it.  The \<open>then\<close> is the
  object's own, or the one it inherits from a stored prototype; the standard prototypes
  have none.
\<close>

datatype settlement = Fulfilled jsval | Rejected thrown | Follows jsval

function then_of :: "heap \<Rightarrow> addr \<Rightarrow> jsval" where
  "then_of h a =
     (case map_of (props (obj_at h a)) ''then'' of
        Some v \<Rightarrow> v
      | None \<Rightarrow>
          (case proto (obj_at h a) of
             Stored b \<Rightarrow> if b < a then then_of h b else Prim Undefined
           | _ \<Rightarrow> Prim Undefined))"
  by pat_completeness auto

termination
  by (relation "measure (\<lambda>(h, a). a)") auto

declare then_of.simps [simp del]

definition is_thenable :: "heap \<Rightarrow> jsval \<Rightarrow> bool" where
  "is_thenable h v =
     (case v of
        Prim p \<Rightarrow> False
      | Ref a \<Rightarrow> (case then_of h a of Ref f \<Rightarrow> callable (obj_at h f) | Prim p \<Rightarrow> False))"

definition settle :: "heap \<times> (thrown + jsval) \<Rightarrow> heap \<times> settlement" where
  "settle outcome =
     (case outcome of
        (h, Inl e) \<Rightarrow> (h, Rejected e)
      | (h, Inr v) \<Rightarrow> (h, if is_thenable h v then Follows v else Fulfilled v))"

definition validateAsync ::
  "ParameterValidator \<Rightarrow> heap \<Rightarrow> jsval \<Rightarrow> requirements \<Rightarrow> jsval \<Rightarrow> options
     \<Rightarrow> thrown + heap \<times> settlement" where
  "validateAsync pv h paramsProvided paramRequirements extractedParams opts =
     Inr (settle (validate pv h paramsProvided paramRequirements extractedParams opts))"

section \<open>Notions of the specification\<close>

text \<open>
  What \<open>paramsProvided[key]\<close> evaluates to; \<open>undefined\<close> stands in where the read
  throws (the validator never gets that far: it rejects a falsy \<open>paramsProvided\<close>).
\<close>

definition prop_value :: "heap \<Rightarrow> jsval \<Rightarrow> string \<Rightarrow> jsval" where
  "prop_value h obj key = (case get_prop h obj key of Inr v \<Rightarrow> v | Inl e \<Rightarrow> Prim Undefined)"

text \<open>Strings joined with a separator between them and none at the end.\<close>

fun join :: "string \<Rightarrow> string list \<Rightarrow> string" where
  "join sep [] = []"
| "join sep [x] = x"
| "join sep (x # y # ys) = x @ sep @ join sep (y # ys)"

text \<open>The two messages as the specification words them.\<close>

definition invalid_value_text :: "heap \<Rightarrow> jsval \<Rightarrow> string \<Rightarrow> string" where
  "invalid_value_text h v name =
     ''Invalid value of '' @ quote @ to_string h v @ quote @ '' was provided for parameter ''
       @ quote @ name @ quote @ ''.''"

definition one_of_text :: "heap \<Rightarrow> jsval list \<Rightarrow> string" where
  "one_of_text h names =
     ''One of the following parameters must be included: ''
       @ join '', '' (map (\<lambda>n. quote @ to_string h n @ quote) names) @ ''.''"

text \<open>
  A name of a logical-OR group satisfies the default validation when the result for its
  value is truthy; for \<open>isDefined\<close> that is: the value is not \<open>undefined\<close>.
\<close>

definition accepted :: "ParameterValidator \<Rightarrow> heap \<Rightarrow> jsval \<Rightarrow> jsval \<Rightarrow> bool" where
  "accepted pv h obj n = truthy (defaultValidation pv (prop_value h obj (to_string h n)))"

text \<open>
  What one rule contributes, in the words of the specification: the messages of its
  failures and the names it extracts.  Both read \<open>paramsProvided\<close> only.  An entry whose
  value is not a function contributes neither (the call stops there with a usage error).
\<close>

fun failure_messages :: "ParameterValidator \<Rightarrow> heap \<Rightarrow> jsval \<Rightarrow> requirement \<Rightarrow> string list" where
  "failure_messages pv h obj (ReqArray names) =
     (if names \<noteq> [] \<and> \<not> (\<exists>n \<in> set names. accepted pv h obj n)
      then [one_of_text h names] else [])"
| "failure_messages pv h obj (ReqObject entries) =
     concat (map (\<lambda>(name, f).
        case f of
          None \<Rightarrow> []
        | Some g \<Rightarrow> if g (prop_value h obj name) = Prim (Bool True) then []
                    else [invalid_value_text h (prop_value h obj name) name]) entries)"
| "failure_messages pv h obj (ReqPrim (Str name)) =
     (if name \<noteq> [] \<and> defaultValidation pv (prop_value h obj name) \<noteq> Prim (Bool True)
      then [invalid_value_text h (prop_value h obj name) name] else [])"
| "failure_messages pv h obj r = []"

fun extracted_names :: "ParameterValidator \<Rightarrow> heap \<Rightarrow> jsval \<Rightarrow> requirement \<Rightarrow> string list" where
  "extracted_names pv h obj (ReqArray names) = map (to_string h) (filter (accepted pv h obj) names)"
| "extracted_names pv h obj (ReqObject entries) =
     map fst (filter (\<lambda>(name, f).
        case f of
          None \<Rightarrow> False
        | Some g \<Rightarrow> g (prop_value h obj name) = Prim (Bool True)) entries)"
| "extracted_names pv h obj (ReqPrim (Str name)) =
     (if name \<noteq> [] \<and> defaultValidation pv (prop_value h obj name) = Prim (Bool True)
      then [name] else [])"
| "extracted_names pv h obj r = []"

text \<open>Every entry of an object descriptor holds a function.\<close>

definition callable_entries :: "requirement \<Rightarrow> bool" where
  "callable_entries r = list_all (\<lambda>(name, f). f \<noteq> None) (for_in r)"



text \<open>
  A mapping \<open>m\<close> after the names \<open>N\<close> were written into it under a prefix, each with
  the value \<open>val\<close> gives it.
\<close>

definition merged :: "string \<Rightarrow> (string \<Rightarrow> jsval) \<Rightarrow> string set \<Rightarrow> (string \<rightharpoonup> jsval) \<Rightarrow> (string \<rightharpoonup> jsval)" where
  "merged prefix val N m =
     (\<lambda>k. if k \<in> (\<lambda>n. prefix @ n) ` N then Some (val (drop (length prefix) k)) else m k)"

text \<open>
  Two stores that differ at most in the properties of the target: same size, same objects
  elsewhere, and the target is still the same kind of object: same text, same prototype,
  same read-only properties.
\<close>

definition differs_in_target_only :: "jsval \<Rightarrow> heap \<Rightarrow> heap \<Rightarrow> bool" where
  "differs_in_target_only target h h' \<longleftrightarrow>
     length h' = length h
     \<and> (\<forall>a. Ref a \<noteq> target \<longrightarrow> obj_at h' a = obj_at h a)
     \<and> (\<forall>a. repr (obj_at h' a) = repr (obj_at h a) \<and> callable (obj_at h' a) = callable (obj_at h a)
            \<and> proto (obj_at h' a) = proto (obj_at h a)
            \<and> intrinsic_name (obj_at h' a) = intrinsic_name (obj_at h a)
            \<and> readonly (obj_at h' a) = readonly (obj_at h a)
            \<and> extensible (obj_at h' a) = extensible (obj_at h a))"

text \<open>
  The store \<open>h'\<close> is \<open>h\<close> after the names \<open>N\<close> were written into the object at
  \<open>t\<close>: nothing else has changed, and no property occurs twice if none did before.
\<close>

definition writes_names ::
  "string \<Rightarrow> (string \<Rightarrow> jsval) \<Rightarrow> addr \<Rightarrow> string set \<Rightarrow> heap \<Rightarrow> heap \<Rightarrow> bool" where
  "writes_names prefix val t N h h' \<longleftrightarrow>
     differs_in_target_only (Ref t) h h'
     \<and> (t < length h \<longrightarrow> map_of (props (h' ! t)) = merged prefix val N (map_of (props (h ! t))))
     \<and> (distinct (map fst (props (obj_at h t))) \<longrightarrow> distinct (map fst (props (obj_at h' t))))"

text \<open>
  The target is the object that \<open>validate\<close> has just created: the newest object of the
  store, no standard prototype, and every assignment to it is accepted.
\<close>

definition newly_created :: "heap \<Rightarrow> addr \<Rightarrow> bool" where
  "newly_created h t \<longleftrightarrow>
     Suc t = length h \<and> intrinsic_name (obj_at h t) = None
     \<and> readonly (obj_at h t) = [] \<and> extensible (obj_at h t)"

text \<open>
  The prefix that \<open>validate\<close> works with: \<open>options.addPrefix || ''\<close>.  The option
  passes the check that follows when it is a string or falsy.
\<close>

definition prefix_of :: "options \<Rightarrow> string" where
  "prefix_of opts = (case addPrefix opts of Prim (Str p) \<Rightarrow> p | v \<Rightarrow> [])"

definition accepted_addPrefix :: "options \<Rightarrow> bool" where
  "accepted_addPrefix opts = (case addPrefix opts of Prim (Str p) \<Rightarrow> True | v \<Rightarrow> \<not> truthy v)"

text \<open>The messages of two usage errors.\<close>

definition not_a_function_text :: "string \<Rightarrow> string" where
  "not_a_function_text name =
     ''A paramRequirement value provided for the parameter '' @ name @ '' is not a function.''"

definition invalid_target_text :: "heap \<Rightarrow> jsval \<Rightarrow> string" where
  "invalid_target_text h v =
     ''Invalid value of '' @ quote @ to_string h v @ quote
       @ '' was provided for the extractedParams parameter.''"

text \<open>
  What can leave the pass over the rules: a throw of the engine or of a descriptor entry
  that is no function, or the errors so far followed by failure messages.
\<close>

definition failure_text :: "string \<Rightarrow> bool" where
  "failure_text m \<longleftrightarrow>
     take 17 m = ''Invalid value of ''
     \<or> take 50 m = ''One of the following parameters must be included: ''"

definition pass_outcome :: "string list \<Rightarrow> thrown + string list \<Rightarrow> bool" where
  "pass_outcome errs r =
     (case r of
        Inl EngineTypeError \<Rightarrow> True
      | Inl (Throw c m) \<Rightarrow> c = Error \<and> take 52 m = ''A paramRequirement value provided for the parameter ''
      | Inr errs' \<Rightarrow> take (length errs) errs' = errs \<and> list_all failure_text (drop (length errs) errs'))"

section \<open>The pass over the rules, check by check\<close>

text \<open>
  The specification describes the pass as a sequence of checks, each evaluated against
  \<open>paramsProvided\<close> as it is when the check is reached, its extracted parameters merged
  into the output before the next check.  A check is one logical-OR group, or one
  parameter with its predicate (an entry of an object descriptor, or a name with the
  default validation); a descriptor of any other shape holds no check.
\<close>

datatype check = OneOf "jsval list" | Single string "(jsval \<Rightarrow> jsval) option"


text \<open>
  The names of a list as a mapping lists them: each once, the array indices first in
  ascending order, then the other names in the order of their first occurrence.
\<close>

fun place :: "string \<Rightarrow> string list \<Rightarrow> string list" where
  "place n [] = [n]"
| "place n (k # ks) = (if listed_before n k then n # k # ks else k # place n ks)"

fun listed :: "string list \<Rightarrow> string list \<Rightarrow> string list" where
  "listed seen [] = seen"
| "listed seen (n # ns) = listed (if n \<in> set seen then seen else place n seen) ns"

text \<open>The names a check extracts and the messages of its failure, in a given store.\<close>

fun check_names :: "ParameterValidator \<Rightarrow> heap \<Rightarrow> jsval \<Rightarrow> check \<Rightarrow> string list" where
  "check_names pv h obj (OneOf names) =
     listed [] (map (to_string h) (filter (accepted pv h obj) names))"
| "check_names pv h obj (Single name (Some g)) =
     (if g (prop_value h obj name) = Prim (Bool True) then [name] else [])"
| "check_names pv h obj (Single name None) = []"

fun check_messages :: "ParameterValidator \<Rightarrow> heap \<Rightarrow> jsval \<Rightarrow> check \<Rightarrow> string list" where
  "check_messages pv h obj (OneOf names) =
     (if \<exists>n \<in> set names. accepted pv h obj n then [] else [one_of_text h names])"
| "check_messages pv h obj (Single name (Some g)) =
     (if g (prop_value h obj name) = Prim (Bool True) then []
      else [invalid_value_text h (prop_value h obj name) name])"
| "check_messages pv h obj (Single name None) = []"

text \<open>
  Merging into the output: a property of the target is set, every assignment taken as
  accepted.  \<open>put_all\<close> merges the entries of a partial result, each under the
  prefix; \<open>put_names\<close> merges the names of one check, each with the value
  \<open>paramsProvided\<close> had for it when the check was evaluated.
\<close>

fun put :: "heap \<Rightarrow> jsval \<Rightarrow> string \<Rightarrow> jsval \<Rightarrow> heap" where
  "put h (Ref a) key v =
     (if a < length h then h[a := (h ! a)\<lparr>props := define_own key v (props (h ! a))\<rparr>] else h)"
| "put h (Prim p) key v = h"

definition put_all :: "heap \<Rightarrow> jsval \<Rightarrow> string \<Rightarrow> (string \<times> jsval) list \<Rightarrow> heap" where
  "put_all h target prefix entries =
     foldl (\<lambda>h' (n, v). put h' target (prefix @ n) v) h entries"

definition put_names :: "heap \<Rightarrow> jsval \<Rightarrow> string \<Rightarrow> jsval \<Rightarrow> string list \<Rightarrow> heap" where
  "put_names h target prefix obj names =
     put_all h target prefix (map (\<lambda>n. (n, prop_value h obj n)) names)"


text \<open>
  The target accepts every assignment: it has no read-only property and can be extended.
\<close>

definition accepts_writes :: "heap \<Rightarrow> jsval \<Rightarrow> bool" where
  "accepts_writes h target =
     (case target of
        Ref a \<Rightarrow> readonly (obj_at h a) = [] \<and> extensible (obj_at h a)
      | Prim p \<Rightarrow> True)"

text \<open>
  The pass over the rules ran to its end and left at least one failure message: the case
  in which \<open>validate\<close> raises the aggregate error.
\<close>

definition rules_fail ::
  "ParameterValidator \<Rightarrow> heap \<Rightarrow> jsval \<Rightarrow> jsval \<Rightarrow> options \<Rightarrow> requirements \<Rightarrow> bool" where
  "rules_fail pv h obj target opts reqs =
     (case reqs of
        NotArray \<Rightarrow> False
      | Array rs \<Rightarrow>
          accepted_addPrefix opts
          \<and> (case snd (validate_requirements pv h obj target (prefix_of opts) rs []) of
               Inr errs \<Rightarrow> errs \<noteq> []
             | Inl e \<Rightarrow> False))"

section \<open>Example data\<close>

text \<open>The object of the test suite, with a \<open>null\<close> and a blank entry.\<close>

definition animalNames :: hobj where
  "animalNames = empty_object\<lparr>props :=
     [(''cat'', Prim (Str ''Garfield'')), (''dog'', Prim (Str ''Jake'')),
      (''dragon'', Prim Null), (''phoenix'', Prim (Str []))]\<rparr>"



definition fourAnimals :: hobj where
  "fourAnimals = empty_object\<lparr>props :=
     [(''cat'', Prim (Str ''Garfield'')), (''dog'', Prim (Str ''Jake'')),
      (''squirrel'', Prim (Str ''Rocky'')), (''mouse'', Prim (Str ''Jerry''))]\<rparr>"

definition scooby :: hobj where
  "scooby = empty_object\<lparr>props :=
     [(''dog'', Prim (Str ''Scooby'')), (''bear'', Prim (Str ''Yogi'')),
      (''penguin'', Prim (Str ''Tux''))]\<rparr>"



text \<open>
  The function \<open>() => {}\<close> with its read-only \<open>length\<close> and \<open>name\<close>, and an object
  whose \<open>then\<close> property holds it (at address 0).
\<close>

definition someFunction :: hobj where
  "someFunction =
     \<lparr>callable = True, repr = ''() => {}'',
      props = [(''length'', Prim (Num ''0'')), (''name'', Prim (Str []))],
      proto = Builtin FunctionPrototype, intrinsic_name = None,
      readonly = [''length'', ''name''], extensible = True\<rparr>"

definition withThen :: hobj where
  "withThen = empty_object\<lparr>props := [(''then'', Ref 0)]\<rparr>"










section \<open>Reading and writing the store\<close>

lemma new_ParameterValidator_default:
  "new_ParameterValidator None = Inr parameterValidator"
  "new_ParameterValidator (Some DvUndefined) = Inr parameterValidator"
  by (simp_all add: new_ParameterValidator_def parameterValidator_def)

lemma new_ParameterValidator_custom:
  "new_ParameterValidator (Some (DvFunction f)) = Inr pv \<Longrightarrow> defaultValidation pv = f"
  by (auto simp: new_ParameterValidator_def defaultValidation_def)

text \<open>The list of own properties under an assignment.\<close>

lemma array_index_Nil [simp]: "array_index [] = None"
  by (simp add: array_index_def)

lemma array_index_no_digit [simp]:
  "c \<notin> set ''0123456789'' \<Longrightarrow> array_index (c # cs) = None"
  by (simp add: array_index_def)

lemma add_own_set: "set (add_own k v al) = insert (k, v) (set al)"
  by (induction al) (auto split: if_splits)

lemma add_own_map_of: "map_of al k = None \<Longrightarrow> map_of (add_own k v al) = (map_of al)(k \<mapsto> v)"
  by (induction al) (auto simp: fun_upd_twist split: if_splits)

lemma add_own_last: "array_index k = None \<Longrightarrow> add_own k v al = al @ [(k, v)]"
  by (induction al) (auto simp: listed_before_def)

lemma update_fresh_append:
  "k \<notin> fst ` set al \<Longrightarrow> AList.update k v al = al @ [(k, v)]"
  by (induction al) auto

lemma define_own_Nil [simp]: "define_own k v [] = [(k, v)]"
  by (simp add: define_own_def)

lemma define_own_plain [simp]:
  "array_index k = None \<Longrightarrow> define_own k v al = AList.update k v al"
  by (simp add: define_own_def add_own_last update_fresh_append map_of_eq_None_iff)

lemma define_own_map_of: "map_of (define_own k v al) = (map_of al)(k \<mapsto> v)"
  by (simp add: define_own_def add_own_map_of update_conv')

lemma define_own_keys: "fst ` set (define_own k v al) = insert k (fst ` set al)"
  by (simp add: define_own_def add_own_set dom_update [unfolded dom_map_of_conv_image_fst]
      del: define_own_plain)

lemma define_own_distinct:
  "distinct (map fst al) \<Longrightarrow> distinct (map fst (define_own k v al))"
proof -
  have "map_of al k = None \<Longrightarrow> distinct (map fst al) \<Longrightarrow> distinct (map fst (add_own k v al))"
    by (induction al) (auto simp: map_of_eq_None_iff add_own_set image_iff split: if_splits)
  then show "distinct (map fst al) \<Longrightarrow> distinct (map fst (define_own k v al))"
    by (simp add: define_own_def distinct_update del: define_own_plain)
qed

lemma update_set_fresh:
  "k \<notin> fst ` set al \<Longrightarrow> set (define_own k v al) = insert (k, v) (set al)"
  by (simp add: define_own_def add_own_set map_of_eq_None_iff del: define_own_plain)

lemma update_same:
  "(k, v) \<in> set al \<Longrightarrow> distinct (map fst al) \<Longrightarrow> define_own k v al = al"
proof -
  assume a: "(k, v) \<in> set al" "distinct (map fst al)"
  then have "map_of al k = Some v" by simp
  moreover have "AList.update k v al = al" using a by (induction al) (auto simp: rev_image_eqI)
  ultimately show ?thesis by (simp add: define_own_def del: define_own_plain)
qed

lemma update_set_consistent:
  assumes "distinct (map fst al)" and "\<forall>(k', v') \<in> set al. v' = val k'"
  shows "set (define_own k (val k) al) = insert (k, val k) (set al)"
proof (cases "k \<in> fst ` set al")
  case True
  then have "(k, val k) \<in> set al" using assms(2) by force
  then show ?thesis using update_same [OF _ assms(1)] by auto
next
  case False
  then show ?thesis by (rule update_set_fresh)
qed

lemma get_prop_truthy: "truthy obj \<Longrightarrow> get_prop h obj key = Inr (prop_value h obj key)"
  by (cases "(h, obj, key)" rule: get_prop.cases) (auto simp: prop_value_def)

lemma executeValidationFunction_Some:
  "truthy obj \<Longrightarrow>
   executeValidationFunction h obj name (Some f) =
     Inr (if f (prop_value h obj name) = Prim (Bool True)
          then \<lparr>errors = [], params = [(name, prop_value h obj name)]\<rparr>
          else \<lparr>errors = [invalid_value_text h (prop_value h obj name) name], params = []\<rparr>)"
  by (simp add: executeValidationFunction_def get_prop_truthy invalid_value_text_def)

lemma concat_sep_join:
  "xs \<noteq> [] \<Longrightarrow> concat (map (\<lambda>x. g x @ sep) xs) = join sep (map g xs) @ sep"
proof (induction xs rule: induct_list012)
  case 1 then show ?case by simp
next
  case (2 x) then show ?case by simp
next
  case (3 x y zs) then show ?case by simp
qed

lemma foldl_append_concat:
  "foldl (\<lambda>m x. m @ g x) acc xs = acc @ concat (map g xs)"
  by (induction xs arbitrary: acc) simp_all

lemma one_of_message_text:
  assumes "names \<noteq> []"
  shows "one_of_message h names = one_of_text h names"
proof -
  let ?g = "\<lambda>n. quote @ to_string h n @ quote"
  let ?pre = "''One of the following parameters must be included: ''"
  have "foldl (\<lambda>m n. m @ quote @ to_string h n @ quote @ '', '') ?pre names
          = ?pre @ concat (map (\<lambda>n. ?g n @ '', '') names)"
    using foldl_append_concat [of "\<lambda>n. ?g n @ '', ''" ?pre names] by simp
  also have "\<dots> = (?pre @ join '', '' (map ?g names)) @ '', ''"
    using concat_sep_join [OF assms, of ?g "'', ''"] by simp
  finally have eq: "foldl (\<lambda>m n. m @ quote @ to_string h n @ quote @ '', '') ?pre names
          = (?pre @ join '', '' (map ?g names)) @ '', ''" .
  show ?thesis
    unfolding one_of_message_def one_of_text_def Let_def eq by simp
qed

lemma aggregate_message_join: "aggregate_message errs = join '' '' errs"
proof (cases "errs = []")
  case True then show ?thesis by (simp add: aggregate_message_def)
next
  case False
  have "foldl (\<lambda>m e. m @ e @ '' '') [] errs = concat (map (\<lambda>e. e @ '' '') errs)"
    using foldl_append_concat [of "\<lambda>e. e @ '' ''" "[]" errs] by simp
  also have "\<dots> = join '' '' errs @ '' ''"
    using concat_sep_join [OF False, of "\<lambda>e. e" "'' ''"] by simp
  finally show ?thesis by (simp add: aggregate_message_def)
qed

lemma collect_valid_set:
  assumes "truthy obj" and "distinct (map fst acc)"
    and "\<forall>(k, v) \<in> set acc. v = prop_value h obj k"
  shows "\<exists>res. collect_valid h isValid obj names acc = Inr res
           \<and> distinct (map fst res)
           \<and> set res = set acc \<union>
                (\<lambda>n. (to_string h n, prop_value h obj (to_string h n)))
                  ` {n \<in> set names. truthy (isValid (prop_value h obj (to_string h n)))}"
  using assms(2,3)
proof (induction names arbitrary: acc)
  case Nil
  then show ?case by simp
next
  case (Cons n ns)
  let ?k = "to_string h n"
  let ?v = "prop_value h obj ?k"
  show ?case
  proof (cases "truthy (isValid ?v)")
    case True
    let ?acc' = "define_own ?k ?v acc"
    have d: "distinct (map fst ?acc')" using Cons.prems(1) by (rule define_own_distinct)
    have s: "set ?acc' = insert (?k, ?v) (set acc)"
      using update_set_consistent [OF Cons.prems(1), of "prop_value h obj" ?k] Cons.prems(2) by simp
    have c: "\<forall>(k, v) \<in> set ?acc'. v = prop_value h obj k"
      using Cons.prems(2) s by auto
    from Cons.IH [OF d c] obtain res where
      r: "collect_valid h isValid obj ns ?acc' = Inr res" "distinct (map fst res)"
         "set res = set ?acc' \<union>
            (\<lambda>n. (to_string h n, prop_value h obj (to_string h n)))
              ` {n \<in> set ns. truthy (isValid (prop_value h obj (to_string h n)))}"
      by blast
    have "collect_valid h isValid obj (n # ns) acc = Inr res"
      using r(1) True by (simp add: get_prop_truthy [OF assms(1)])
    moreover have "set res = set acc \<union>
            (\<lambda>n. (to_string h n, prop_value h obj (to_string h n)))
              ` {m \<in> set (n # ns). truthy (isValid (prop_value h obj (to_string h m)))}"
      using r(3) s True by auto
    ultimately show ?thesis using r(2) by blast
  next
    case False
    from Cons.IH [OF Cons.prems] obtain res where
      r: "collect_valid h isValid obj ns acc = Inr res" "distinct (map fst res)"
         "set res = set acc \<union>
            (\<lambda>n. (to_string h n, prop_value h obj (to_string h n)))
              ` {n \<in> set ns. truthy (isValid (prop_value h obj (to_string h n)))}"
      by blast
    have "collect_valid h isValid obj (n # ns) acc = Inr res"
      using r(1) False by (simp add: get_prop_truthy [OF assms(1)])
    moreover have "set res = set acc \<union>
            (\<lambda>n. (to_string h n, prop_value h obj (to_string h n)))
              ` {m \<in> set (n # ns). truthy (isValid (prop_value h obj (to_string h m)))}"
      using r(3) False by auto
    ultimately show ?thesis using r(2) by blast
  qed
qed

lemma performLogicalOr_result:
  assumes "truthy obj" and "names \<noteq> []"
  shows "\<exists>res. performLogicalOrParamValidation pv h obj names = Inr res
           \<and> distinct (map fst (params res))
           \<and> set (params res) =
                (\<lambda>n. (to_string h n, prop_value h obj (to_string h n)))
                  ` {n \<in> set names. accepted pv h obj n}
           \<and> errors res = (if \<exists>n \<in> set names. accepted pv h obj n then []
                            else [one_of_text h names])"
proof -
  from collect_valid_set [OF assms(1), of "[]" h "defaultValidation pv" names]
  obtain ps where
    r: "collect_valid h (defaultValidation pv) obj names [] = Inr ps" "distinct (map fst ps)"
       "set ps = (\<lambda>n. (to_string h n, prop_value h obj (to_string h n)))
                  ` {n \<in> set names. accepted pv h obj n}"
    by (auto simp: accepted_def)
  have e: "(length ps = 0) = (\<not> (\<exists>n \<in> set names. accepted pv h obj n))"
  proof -
    have "(ps = []) = (set ps = {})" by simp
    also have "\<dots> = (\<not> (\<exists>n \<in> set names. accepted pv h obj n))"
      unfolding r(3) by auto
    finally show ?thesis by simp
  qed
  show ?thesis
    using r e by (simp add: performLogicalOrParamValidation_def one_of_message_text [OF assms(2)])
qed

text \<open>A new empty object changes no read.\<close>

lemma obj_at_append_empty [simp]: "obj_at (h @ [empty_object]) a = obj_at h a"
  by (auto simp: obj_at_def nth_append)

lemma empty_object_fields [simp]:
  "props empty_object = []" "callable empty_object = False" "repr empty_object = ''[object Object]''"
  "proto empty_object = Builtin ObjectPrototype" "intrinsic_name empty_object = None"
  "readonly empty_object = []" "extensible empty_object = True"
  by (simp_all add: empty_object_def)

lemma intrinsic_from_append_empty:
  "intrinsic_from a (h @ [empty_object]) i = intrinsic_from a h i"
  by (induction h arbitrary: a) simp_all

lemma intrinsic_at_append_empty [simp]: "intrinsic_at (h @ [empty_object]) i = intrinsic_at h i"
  by (simp add: intrinsic_at_def intrinsic_from_append_empty)

lemma parent_append_empty [simp]: "parent (h @ [empty_object]) a = parent h a"
  by (simp add: parent_def split: prototype.splits)

lemma lookup_append_empty [simp]: "lookup (h @ [empty_object]) a key = lookup h a key"
proof (induction a rule: less_induct)
  case (less a)
  show ?case
    unfolding lookup.simps [of "h @ [empty_object]" a] lookup.simps [of h a]
    using less by (simp split: option.splits)
qed

lemma inherited_append_empty [simp]: "inherited (h @ [empty_object]) i key = inherited h i key"
  by (simp add: inherited_def split: option.splits)

lemma to_string_append_empty [simp]: "to_string (h @ [empty_object]) v = to_string h v"
  by (cases v) simp_all

lemma get_prop_append_empty [simp]: "get_prop (h @ [empty_object]) obj key = get_prop h obj key"
  by (cases "(h, obj, key)" rule: get_prop.cases) (simp_all split: option.splits)

lemma prop_value_append_empty [simp]: "prop_value (h @ [empty_object]) obj key = prop_value h obj key"
  by (simp add: prop_value_def)

lemma invalid_value_text_append_empty [simp]:
  "invalid_value_text (h @ [empty_object]) v name = invalid_value_text h v name"
  by (simp add: invalid_value_text_def)

lemma one_of_text_append_empty [simp]:
  "one_of_text (h @ [empty_object]) names = one_of_text h names"
  by (simp add: one_of_text_def)

lemma aggregate_message_single [simp]: "aggregate_message [m] = m"
  by (simp add: aggregate_message_def)

lemma refuses_empty [simp]:
  "\<not> refuses (empty_object\<lparr>props := ps\<rparr>) key" "\<not> refuses empty_object key"
  by (simp_all add: refuses_def)

lemma set_prop_fresh [simp]:
  "set_prop (h @ [empty_object\<lparr>props := ps\<rparr>]) (Ref (length h)) key v =
     Inr (h @ [empty_object\<lparr>props := define_own key v ps\<rparr>])"
  by simp

lemma getExtractedParamsObject_omitted:
  "t = Prim Undefined \<or> t = Prim Null \<Longrightarrow>
   getExtractedParamsObject h t = Inr (h @ [empty_object], Ref (length h))"
  by (auto simp: getExtractedParamsObject_def)

lemma getValidationErrorSubclass_default [simp]:
  "getValidationErrorSubclass h default_options = Inr ParameterValidationError"
  by (simp add: getValidationErrorSubclass_def default_options_def)

lemma addPrefix_default [simp]: "addPrefix default_options = Prim Undefined"
  by (simp add: default_options_def)

lemma empty_object_props_id [simp]: "empty_object\<lparr>props := []\<rparr> = empty_object"
  by (simp add: empty_object_def)

lemma validate_single_string:
  assumes "truthy obj" and "name \<noteq> []"
  shows "validate pv h obj (Array [ReqPrim (Str name)]) (Prim Undefined) default_options =
     (if defaultValidation pv (prop_value h obj name) = Prim (Bool True)
      then (h @ [empty_object\<lparr>props := [(name, prop_value h obj name)]\<rparr>], Inr (Ref (length h)))
      else (h @ [empty_object],
            Inl (Throw ParameterValidationError
                   (invalid_value_text h (prop_value h obj name) name))))"
proof -
  have w: "set_prop (h @ [empty_object]) (Ref (length h)) name v =
             Inr (h @ [empty_object\<lparr>props := [(name, v)]\<rparr>])" for v
    using set_prop_fresh [of h "[]" name v] by simp
  show ?thesis
    using assms
    by (simp add: validate_def getExtractedParamsObject_omitted executeValidationFunction_Some w)
qed

lemma lookup_own: "map_of (props (obj_at h a)) key = Some v \<Longrightarrow> lookup h a key = v"
  by (simp add: lookup.simps [of h a])


lemma lookup_absent:
  "map_of (props (obj_at h a)) key = None \<Longrightarrow> parent h a = None \<Longrightarrow>
   lookup h a key = Prim Undefined"
  by (simp add: lookup.simps [of h a])

section \<open>The default validation\<close>







section \<open>Custom validation functions\<close>



section \<open>Logical-OR groups\<close>




section \<open>Writes go to the target only\<close>

lemma differs_refl [simp]: "differs_in_target_only t h h"
  by (simp add: differs_in_target_only_def)

lemma differs_trans:
  "differs_in_target_only t h h1 \<Longrightarrow> differs_in_target_only t h1 h2 \<Longrightarrow> differs_in_target_only t h h2"
  by (simp add: differs_in_target_only_def)

lemma differs_put: "differs_in_target_only t h (put h t key v)"
  by (cases t) (auto simp: differs_in_target_only_def obj_at_def nth_list_update)

lemma set_prop_put: "set_prop h t key v = Inr h' \<Longrightarrow> h' = put h t key v"
  by (cases t) (auto split: if_splits)

lemma set_prop_throws: "set_prop h t key v = Inl e \<Longrightarrow> e = EngineTypeError"
  by (cases t) (auto split: if_splits)

lemma set_prop_accepted: "accepts_writes h t \<Longrightarrow> set_prop h t key v = Inr (put h t key v)"
  by (cases t) (auto simp: accepts_writes_def obj_at_def refuses_def)

lemma differs_accepts_writes:
  "differs_in_target_only t h h' \<Longrightarrow> accepts_writes h' t = accepts_writes h t"
  by (cases t) (simp_all add: accepts_writes_def differs_in_target_only_def)

lemma put_all_Nil [simp]: "put_all h t prefix [] = h"
  by (simp add: put_all_def)

lemma put_all_Cons [simp]:
  "put_all h t prefix ((n, v) # ps) = put_all (put h t (prefix @ n) v) t prefix ps"
  by (simp add: put_all_def)

lemma put_all_append: "put_all h t prefix (ps @ qs) = put_all (put_all h t prefix ps) t prefix qs"
  by (simp add: put_all_def)

lemma differs_put_all: "differs_in_target_only t h (put_all h t prefix ps)"
proof (induction ps arbitrary: h)
  case Nil then show ?case by simp
next
  case (Cons p ps)
  obtain n v where p: "p = (n, v)" by (cases p)
  show ?case
    unfolding p using differs_trans [OF differs_put Cons.IH] by simp
qed

lemma assignProperties_done:
  "assignProperties h t ps prefix = (h', None) \<Longrightarrow> h' = put_all h t prefix ps"
proof (induction ps arbitrary: h)
  case Nil then show ?case by simp
next
  case (Cons p ps)
  obtain n v where p: "p = (n, v)" by (cases p)
  show ?case
  proof (cases "set_prop h t (prefix @ n) v")
    case (Inl e)
    then show ?thesis using Cons.prems by (simp add: p)
  next
    case (Inr h1)
    then have "assignProperties h1 t ps prefix = (h', None)" using Cons.prems by (simp add: p)
    from Cons.IH [OF this] show ?thesis using set_prop_put [OF Inr] by (simp add: p)
  qed
qed

lemma assignProperties_thrown:
  "assignProperties h t ps prefix = (h', Some e) \<Longrightarrow>
   e = EngineTypeError \<and> differs_in_target_only t h h'"
proof (induction ps arbitrary: h)
  case Nil then show ?case by simp
next
  case (Cons p ps)
  obtain n v where p: "p = (n, v)" by (cases p)
  show ?case
  proof (cases "set_prop h t (prefix @ n) v")
    case (Inl x)
    then show ?thesis using Cons.prems set_prop_throws [OF Inl] by (simp add: p)
  next
    case (Inr h1)
    then have a: "assignProperties h1 t ps prefix = (h', Some e)" using Cons.prems by (simp add: p)
    have "h1 = put h t (prefix @ n) v" using set_prop_put [OF Inr] .
    then have "differs_in_target_only t h h1" by (simp add: differs_put)
    then show ?thesis using Cons.IH [OF a] differs_trans by blast
  qed
qed

lemma assignProperties_accepted:
  "accepts_writes h t \<Longrightarrow> assignProperties h t ps prefix = (put_all h t prefix ps, None)"
proof (induction ps arbitrary: h)
  case Nil then show ?case by simp
next
  case (Cons p ps)
  obtain n v where p: "p = (n, v)" by (cases p)
  have "accepts_writes (put h t (prefix @ n) v) t"
    using Cons.prems differs_accepts_writes [OF differs_put] by simp
  from Cons.IH [OF this] show ?case
    by (simp add: p set_prop_accepted [OF Cons.prems])
qed

lemma differs_to_string: "differs_in_target_only t h h' \<Longrightarrow> to_string h' v = to_string h v"
  by (cases v) (simp_all add: differs_in_target_only_def)

lemma differs_typeof: "differs_in_target_only t h h' \<Longrightarrow> typeof h' v = typeof h v"
  by (cases v) (simp_all add: differs_in_target_only_def)

lemma differs_invalid_value_text:
  "differs_in_target_only t h h' \<Longrightarrow> invalid_value_text h' v name = invalid_value_text h v name"
  by (simp add: invalid_value_text_def differs_to_string)

lemma differs_one_of_text:
  "differs_in_target_only t h h' \<Longrightarrow> one_of_text h' names = one_of_text h names"
  by (simp add: one_of_text_def differs_to_string)

text \<open>
  The standard prototypes stay where they are, and a read that starts below the target
  never reaches it.
\<close>

lemma intrinsic_from_cong:
  "length h' = length h \<Longrightarrow> \<forall>a < length h. intrinsic_name (h' ! a) = intrinsic_name (h ! a) \<Longrightarrow>
   intrinsic_from k h' i = intrinsic_from k h i"
proof (induction h arbitrary: h' k)
  case Nil then show ?case by simp
next
  case (Cons ob obs)
  then obtain ob' obs' where h': "h' = ob' # obs'" by (cases h') auto
  have hd: "intrinsic_name ob' = intrinsic_name ob" using Cons.prems(2) h' by auto
  have tl: "\<forall>a < length obs. intrinsic_name (obs' ! a) = intrinsic_name (obs ! a)"
    using Cons.prems(2) h' by auto
  have "intrinsic_from (Suc k) obs' i = intrinsic_from (Suc k) obs i"
    using Cons.IH [OF _ tl] Cons.prems(1) h' by simp
  then show ?case by (simp add: h' hd)
qed

lemma intrinsic_from_bound:
  "intrinsic_from k h i = Some b \<Longrightarrow>
   k \<le> b \<and> b < k + length h \<and> intrinsic_name (h ! (b - k)) = Some i"
proof (induction h arbitrary: k)
  case Nil then show ?case by simp
next
  case (Cons ob obs)
  show ?case
  proof (cases "intrinsic_name ob = Some i")
    case True
    then show ?thesis using Cons.prems by simp
  next
    case False
    then have "intrinsic_from (Suc k) obs i = Some b" using Cons.prems by simp
    from Cons.IH [OF this] show ?thesis by (auto simp: Suc_diff_le)
  qed
qed

lemma intrinsic_at_bound:
  "intrinsic_at h i = Some b \<Longrightarrow> b < length h \<and> intrinsic_name (obj_at h b) = Some i"
  using intrinsic_from_bound [of 0 h i b] by (simp add: intrinsic_at_def obj_at_def)

lemma differs_intrinsic_at:
  assumes "differs_in_target_only t h h'"
  shows "intrinsic_at h' i = intrinsic_at h i"
proof -
  have l: "length h' = length h" using assms by (simp add: differs_in_target_only_def)
  have "\<forall>a < length h. intrinsic_name (h' ! a) = intrinsic_name (h ! a)"
  proof (intro allI impI)
    fix a assume a: "a < length h"
    have "intrinsic_name (obj_at h' a) = intrinsic_name (obj_at h a)"
      using assms by (simp add: differs_in_target_only_def)
    then show "intrinsic_name (h' ! a) = intrinsic_name (h ! a)"
      using a l by (simp add: obj_at_def)
  qed
  then show ?thesis using intrinsic_from_cong [OF l] by (simp add: intrinsic_at_def)
qed

lemma differs_parent:
  assumes "differs_in_target_only t h h'"
  shows "parent h' a = parent h a"
proof -
  have "proto (obj_at h' a) = proto (obj_at h a)"
    using assms by (simp add: differs_in_target_only_def)
  then show ?thesis
    by (simp add: parent_def differs_intrinsic_at [OF assms] split: prototype.splits)
qed

lemma differs_lookup_below:
  assumes "differs_in_target_only (Ref t) h h'"
  shows "a < t \<Longrightarrow> lookup h' a key = lookup h a key"
proof (induction a rule: less_induct)
  case (less a)
  have o: "obj_at h' a = obj_at h a"
    using assms less.prems by (simp add: differs_in_target_only_def)
  show ?case
    unfolding lookup.simps [of h' a] lookup.simps [of h a] o differs_parent [OF assms]
    using less by (simp split: option.splits)
qed

lemma differs_inherited:
  assumes "differs_in_target_only (Ref t) h h'" and "newly_created h t"
  shows "inherited h' i key = inherited h i key"
proof (cases "intrinsic_at h i")
  case None
  then show ?thesis by (simp add: inherited_def differs_intrinsic_at [OF assms(1)])
next
  case (Some b)
  from intrinsic_at_bound [OF Some] have "b < length h" "intrinsic_name (obj_at h b) = Some i"
    by simp_all
  then have "b < t" using assms(2) by (cases "b = t") (auto simp: newly_created_def)
  then show ?thesis
    using Some differs_lookup_below [OF assms(1)]
    by (simp add: inherited_def differs_intrinsic_at [OF assms(1)])
qed

lemma differs_lookup:
  assumes "differs_in_target_only (Ref t) h h'" and "newly_created h t" and "a \<noteq> t"
  shows "lookup h' a key = lookup h a key"
proof (cases "a < t")
  case True
  then show ?thesis by (rule differs_lookup_below [OF assms(1)])
next
  case False
  then have a: "length h \<le> a" using assms(2,3) by (simp add: newly_created_def)
  have l: "length h' = length h" using assms(1) by (simp add: differs_in_target_only_def)
  have o: "obj_at h' a = empty_object" "obj_at h a = empty_object"
    using a l by (simp_all add: obj_at_def)
  have p: "parent h a = intrinsic_at h ObjectPrototype"
    by (simp add: parent_def o)
  show ?thesis
  proof (cases "intrinsic_at h ObjectPrototype")
    case None
    then show ?thesis
      unfolding lookup.simps [of h' a] lookup.simps [of h a] o differs_parent [OF assms(1)] p
      by simp
  next
    case (Some b)
    from intrinsic_at_bound [OF Some] have "b < length h"
      "intrinsic_name (obj_at h b) = Some ObjectPrototype" by simp_all
    then have "b < t" using assms(2) by (cases "b = t") (auto simp: newly_created_def)
    then have "lookup h' b key = lookup h b key" by (rule differs_lookup_below [OF assms(1)])
    then show ?thesis
      unfolding lookup.simps [of h' a] lookup.simps [of h a] o differs_parent [OF assms(1)] p
      using Some by simp
  qed
qed

lemma differs_get_prop:
  assumes "differs_in_target_only (Ref t) h h'" and "newly_created h t" and "obj \<noteq> Ref t"
  shows "get_prop h' obj key = get_prop h obj key"
proof (cases obj)
  case (Prim p)
  then show ?thesis
    by (cases p) (simp_all add: differs_inherited [OF assms(1,2)] split: option.splits)
next
  case (Ref a)
  then show ?thesis using differs_lookup [OF assms(1,2), of a key] assms(3) by simp
qed

lemma differs_prop_value:
  "differs_in_target_only (Ref t) h h' \<Longrightarrow> newly_created h t \<Longrightarrow> obj \<noteq> Ref t \<Longrightarrow>
   prop_value h' obj key = prop_value h obj key"
  by (simp add: prop_value_def differs_get_prop)

lemma differs_accepted:
  "differs_in_target_only (Ref t) h h' \<Longrightarrow> newly_created h t \<Longrightarrow> obj \<noteq> Ref t \<Longrightarrow>
   accepted pv h' obj n = accepted pv h obj n"
  by (simp add: accepted_def differs_to_string differs_prop_value)

lemma merged_empty [simp]: "merged prefix val {} m = m"
  by (simp add: merged_def)

lemma merged_merged: "merged prefix val N (merged prefix val M m) = merged prefix val (M \<union> N) m"
  by (rule ext) (auto simp: merged_def)

lemma merged_update:
  "(merged prefix val N m)(prefix @ n \<mapsto> val n) = merged prefix val (insert n N) m"
  by (rule ext) (auto simp: merged_def)

lemma length_put [simp]: "length (put h t key v) = length h"
  by (cases t) simp_all

lemma length_put_all [simp]: "length (put_all h t prefix ps) = length h"
proof (induction ps arbitrary: h)
  case Nil then show ?case by simp
next
  case (Cons p ps)
  obtain n v where p: "p = (n, v)" by (cases p)
  show ?case using Cons.IH by (simp add: p)
qed

lemma put_all_map:
  assumes "t < length h" and "\<forall>(n, v) \<in> set ps. v = val n"
  shows "map_of (props (put_all h (Ref t) prefix ps ! t))
           = merged prefix val (fst ` set ps) (map_of (props (h ! t)))"
  using assms
proof (induction ps arbitrary: h)
  case Nil then show ?case by simp
next
  case (Cons p ps)
  obtain n v where p: "p = (n, v)" by (cases p)
  have v: "v = val n" using Cons.prems(2) p by simp
  define h1 where "h1 = put h (Ref t) (prefix @ n) v"
  have t1: "t < length h1" using Cons.prems(1) by (simp add: h1_def)
  have rest: "\<forall>(n, v) \<in> set ps. v = val n" using Cons.prems(2) by simp
  have "map_of (props (h1 ! t)) = (map_of (props (h ! t)))(prefix @ n \<mapsto> val n)"
    using Cons.prems(1) v by (simp add: h1_def define_own_map_of del: define_own_plain)
  also have "\<dots> = merged prefix val {n} (map_of (props (h ! t)))"
    using merged_update [of prefix val "{}" "map_of (props (h ! t))" n] by simp
  finally have m1: "map_of (props (h1 ! t)) = merged prefix val {n} (map_of (props (h ! t)))" .
  have "put_all h (Ref t) prefix (p # ps) = put_all h1 (Ref t) prefix ps"
    by (simp add: p h1_def)
  then have "map_of (props (put_all h (Ref t) prefix (p # ps) ! t))
          = merged prefix val (fst ` set ps) (merged prefix val {n} (map_of (props (h ! t))))"
    using Cons.IH [OF t1 rest] m1 by simp
  also have "\<dots> = merged prefix val (insert n (fst ` set ps)) (map_of (props (h ! t)))"
    by (simp add: merged_merged)
  finally show ?case by (simp add: p)
qed

lemma put_all_distinct:
  "distinct (map fst (props (obj_at h t))) \<Longrightarrow>
   distinct (map fst (props (obj_at (put_all h (Ref t) prefix ps) t)))"
proof (induction ps arbitrary: h)
  case Nil then show ?case by simp
next
  case (Cons p ps)
  obtain n v where p: "p = (n, v)" by (cases p)
  have "distinct (map fst (props (obj_at (put h (Ref t) (prefix @ n) v) t)))"
    using Cons.prems by (auto simp: obj_at_def define_own_distinct simp del: define_own_plain)
  from Cons.IH [OF this] show ?case by (simp add: p)
qed

lemma writes_names_refl [simp]: "writes_names prefix val t {} h h"
  by (simp add: writes_names_def)

lemma writes_names_trans:
  assumes "writes_names prefix val t M h h1" and "writes_names prefix val t N h1 h2"
  shows "writes_names prefix val t (M \<union> N) h h2"
proof -
  have l: "length h1 = length h"
    using assms(1) by (simp add: writes_names_def differs_in_target_only_def)
  show ?thesis
    using assms l differs_trans [of "Ref t" h h1 h2]
    by (auto simp: writes_names_def merged_merged)
qed

lemma writes_names_put_all:
  assumes "\<forall>(n, v) \<in> set ps. v = val n"
  shows "writes_names prefix val t (fst ` set ps) h (put_all h (Ref t) prefix ps)"
  using assms
  by (simp add: writes_names_def differs_put_all put_all_map put_all_distinct)

section \<open>One pass over the rules, into a new object\<close>

text \<open>
  The object that \<open>validate\<close> creates is reached by no read of \<open>paramsProvided\<close>
  and accepts every assignment, so each rule reads what it would have read before the
  call.
\<close>

lemma newly_created_accepts:
  "newly_created h0 t \<Longrightarrow> differs_in_target_only (Ref t) h0 h \<Longrightarrow> accepts_writes h (Ref t)"
  using differs_accepts_writes [of "Ref t" h0 h]
  by (simp add: accepts_writes_def newly_created_def)

lemma validate_entries_result:
  assumes "truthy obj" and "obj \<noteq> Ref t" and "list_all (\<lambda>(n, f). f \<noteq> None) entries"
    and "differs_in_target_only (Ref t) h0 h" and "newly_created h0 t"
  shows "\<exists>h'. validate_entries h obj (Ref t) prefix entries errs =
                 (h', Inr (errs @ failure_messages pv h0 obj (ReqObject entries)))
              \<and> writes_names prefix (prop_value h0 obj) t
                   (set (extracted_names pv h0 obj (ReqObject entries))) h h'"
  using assms(3,4)
proof (induction entries arbitrary: h errs)
  case Nil
  then show ?case by simp
next
  case (Cons e es)
  obtain n f where e: "e = (n, f)" by (cases e)
  obtain g where f: "f = Some g" using Cons.prems(1) e by auto
  let ?v = "prop_value h0 obj n"
  let ?ok = "g ?v = Prim (Bool True)"
  let ?ps = "if ?ok then [(n, ?v)] else []"
  let ?ms = "if ?ok then [] else [invalid_value_text h0 ?v n]"
  let ?h1 = "put_all h (Ref t) prefix ?ps"
  have pv: "prop_value h obj n = ?v"
    using differs_prop_value [OF Cons.prems(2) assms(5,2)] .
  have ex: "executeValidationFunction h obj n (Some g) = Inr \<lparr>errors = ?ms, params = ?ps\<rparr>"
    using executeValidationFunction_Some [OF assms(1), of h n g] pv
      differs_invalid_value_text [OF Cons.prems(2)] by simp
  have as: "assignProperties h (Ref t) ?ps prefix = (?h1, None)"
    by (rule assignProperties_accepted) (rule newly_created_accepts [OF assms(5) Cons.prems(2)])
  have w1: "writes_names prefix (prop_value h0 obj) t (fst ` set ?ps) h ?h1"
    by (rule writes_names_put_all) simp
  have d1: "differs_in_target_only (Ref t) h0 ?h1"
    using differs_trans [OF Cons.prems(2)] w1 by (simp add: writes_names_def)
  have rest: "list_all (\<lambda>(n, f). f \<noteq> None) es" using Cons.prems(1) by simp
  from Cons.IH [OF rest d1, of "errs @ ?ms"] obtain h' where
    r: "validate_entries ?h1 obj (Ref t) prefix es (errs @ ?ms) =
          (h', Inr ((errs @ ?ms) @ failure_messages pv h0 obj (ReqObject es)))"
       "writes_names prefix (prop_value h0 obj) t
          (set (extracted_names pv h0 obj (ReqObject es))) ?h1 h'"
    by blast
  have "validate_entries h obj (Ref t) prefix (e # es) errs =
          (h', Inr (errs @ failure_messages pv h0 obj (ReqObject (e # es))))"
    using r(1) by (simp add: e ex f as)
  moreover have "fst ` set ?ps \<union> set (extracted_names pv h0 obj (ReqObject es))
                   = set (extracted_names pv h0 obj (ReqObject (e # es)))"
    by (simp add: e f)
  then have "writes_names prefix (prop_value h0 obj) t
          (set (extracted_names pv h0 obj (ReqObject (e # es)))) h h'"
    using writes_names_trans [OF w1 r(2)] by simp
  ultimately show ?case by blast
qed

lemma performLogicalOr_step:
  assumes "truthy obj" and "obj \<noteq> Ref t" and "names \<noteq> []"
    and "differs_in_target_only (Ref t) h0 h" and "newly_created h0 t"
  shows "\<exists>res. performLogicalOrParamValidation pv h obj names = Inr res
           \<and> errors res = failure_messages pv h0 obj (ReqArray names)
           \<and> fst ` set (params res) = set (extracted_names pv h0 obj (ReqArray names))
           \<and> (\<forall>(k, v) \<in> set (params res). v = prop_value h0 obj k)"
proof -
  have a: "accepted pv h obj = accepted pv h0 obj"
    using differs_accepted [OF assms(4,5,2)] by auto
  have s: "to_string h = to_string h0"
    using differs_to_string [OF assms(4)] by auto
  have p: "prop_value h obj = prop_value h0 obj"
    using differs_prop_value [OF assms(4,5,2)] by auto
  from performLogicalOr_result [OF assms(1,3), of pv h] obtain res where
    r: "performLogicalOrParamValidation pv h obj names = Inr res"
       "set (params res) =
          (\<lambda>n. (to_string h0 n, prop_value h0 obj (to_string h0 n)))
            ` {n \<in> set names. accepted pv h0 obj n}"
       "errors res = (if \<exists>n \<in> set names. accepted pv h0 obj n then []
                      else [one_of_text h0 names])"
    unfolding a s p differs_one_of_text [OF assms(4)] by blast
  have "fst ` set (params res) = set (extracted_names pv h0 obj (ReqArray names))"
    unfolding r(2) by (auto simp: image_image)
  moreover have "\<forall>(k, v) \<in> set (params res). v = prop_value h0 obj k"
    unfolding r(2) by auto
  moreover have "errors res = failure_messages pv h0 obj (ReqArray names)"
    using r(3) assms(3) by simp
  ultimately show ?thesis using r(1) by blast
qed

lemma requirement_step:
  assumes "truthy obj" and "obj \<noteq> Ref t" and "callable_entries r"
    and "differs_in_target_only (Ref t) h0 h" and "newly_created h0 t"
  shows "\<exists>h1. validate_requirements pv h obj (Ref t) prefix (r # rest) errs =
                 validate_requirements pv h1 obj (Ref t) prefix rest
                   (errs @ failure_messages pv h0 obj r)
              \<and> writes_names prefix (prop_value h0 obj) t
                   (set (extracted_names pv h0 obj r)) h h1"
proof (cases r)
  case (ReqArray names)
  show ?thesis
  proof (cases "names = []")
    case True
    have "validate_requirements pv h obj (Ref t) prefix (r # rest) errs =
            validate_requirements pv h obj (Ref t) prefix rest (errs @ failure_messages pv h0 obj r)"
      by (simp add: ReqArray True)
    moreover have "writes_names prefix (prop_value h0 obj) t (set (extracted_names pv h0 obj r)) h h"
      by (simp add: ReqArray True)
    ultimately show ?thesis by blast
  next
    case False
    from performLogicalOr_step [OF assms(1,2) False assms(4,5), of pv] obtain res where
      r: "performLogicalOrParamValidation pv h obj names = Inr res"
         "errors res = failure_messages pv h0 obj (ReqArray names)"
         "fst ` set (params res) = set (extracted_names pv h0 obj (ReqArray names))"
         "\<forall>(k, v) \<in> set (params res). v = prop_value h0 obj k"
      by blast
    have as: "assignProperties h (Ref t) (params res) prefix =
                (put_all h (Ref t) prefix (params res), None)"
      by (rule assignProperties_accepted) (rule newly_created_accepts [OF assms(5,4)])
    have "validate_requirements pv h obj (Ref t) prefix (r # rest) errs =
            validate_requirements pv (put_all h (Ref t) prefix (params res)) obj (Ref t)
              prefix rest (errs @ failure_messages pv h0 obj r)"
      using r(1,2) False by (simp add: ReqArray as)
    moreover have "writes_names prefix (prop_value h0 obj) t (set (extracted_names pv h0 obj r)) h
                     (put_all h (Ref t) prefix (params res))"
      using writes_names_put_all [OF r(4), of prefix t h] r(3) by (simp add: ReqArray)
    ultimately show ?thesis by blast
  qed
next
  case (ReqObject entries)
  have "list_all (\<lambda>(n, f). f \<noteq> None) entries"
    using assms(3) by (simp add: callable_entries_def ReqObject)
  from validate_entries_result [OF assms(1,2) this assms(4,5), of prefix errs pv] obtain h' where
    r: "validate_entries h obj (Ref t) prefix entries errs =
          (h', Inr (errs @ failure_messages pv h0 obj (ReqObject entries)))"
       "writes_names prefix (prop_value h0 obj) t
          (set (extracted_names pv h0 obj (ReqObject entries))) h h'"
    by blast
  have "validate_requirements pv h obj (Ref t) prefix (r # rest) errs =
          validate_requirements pv h' obj (Ref t) prefix rest (errs @ failure_messages pv h0 obj r)"
    using r(1) by (simp add: ReqObject)
  then show ?thesis using r(2) unfolding ReqObject by blast
next
  case ReqFunction
  have "validate_requirements pv h obj (Ref t) prefix (r # rest) errs =
          validate_requirements pv h obj (Ref t) prefix rest (errs @ failure_messages pv h0 obj r)"
    by (simp add: ReqFunction)
  moreover have "writes_names prefix (prop_value h0 obj) t (set (extracted_names pv h0 obj r)) h h"
    by (simp add: ReqFunction)
  ultimately show ?thesis by blast
next
  case (ReqPrim p)
  show ?thesis
  proof (cases "\<exists>name. p = Str name \<and> name \<noteq> []")
    case True
    then obtain name where p: "p = Str name" "name \<noteq> []" by blast
    let ?v = "prop_value h0 obj name"
    let ?ok = "defaultValidation pv ?v = Prim (Bool True)"
    let ?ps = "if ?ok then [(name, ?v)] else []"
    have pv: "prop_value h obj name = ?v"
      using differs_prop_value [OF assms(4,5,2)] .
    have ex: "executeValidationFunction h obj name (Some (defaultValidation pv)) =
                Inr \<lparr>errors = failure_messages pv h0 obj r, params = ?ps\<rparr>"
      using executeValidationFunction_Some [OF assms(1), of h name "defaultValidation pv"] pv
        differs_invalid_value_text [OF assms(4)] p by (simp add: ReqPrim)
    have as: "assignProperties h (Ref t) ?ps prefix = (put_all h (Ref t) prefix ?ps, None)"
      by (rule assignProperties_accepted) (rule newly_created_accepts [OF assms(5,4)])
    have "validate_requirements pv h obj (Ref t) prefix (r # rest) errs =
            validate_requirements pv (put_all h (Ref t) prefix ?ps) obj (Ref t)
              prefix rest (errs @ failure_messages pv h0 obj r)"
      using p by (simp add: ReqPrim ex [unfolded ReqPrim p] as)
    moreover have "writes_names prefix (prop_value h0 obj) t (fst ` set ?ps) h
                     (put_all h (Ref t) prefix ?ps)"
      by (rule writes_names_put_all) simp
    moreover have "fst ` set ?ps = set (extracted_names pv h0 obj r)"
      using p by (cases ?ok) (simp_all add: ReqPrim)
    ultimately show ?thesis by (metis (no_types, lifting))
  next
    case False
    have "validate_requirements pv h obj (Ref t) prefix (r # rest) errs =
            validate_requirements pv h obj (Ref t) prefix rest (errs @ failure_messages pv h0 obj r)"
      using False by (cases p) (simp_all add: ReqPrim)
    moreover have "writes_names prefix (prop_value h0 obj) t (set (extracted_names pv h0 obj r)) h h"
      using False by (cases p) (simp_all add: ReqPrim)
    ultimately show ?thesis by blast
  qed
qed

lemma validate_requirements_result:
  assumes "truthy obj" and "obj \<noteq> Ref t" and "list_all callable_entries reqs"
    and "differs_in_target_only (Ref t) h0 h" and "newly_created h0 t"
  shows "\<exists>h'. validate_requirements pv h obj (Ref t) prefix reqs errs =
                 (h', Inr (errs @ concat (map (failure_messages pv h0 obj) reqs)))
              \<and> writes_names prefix (prop_value h0 obj) t
                   (set (concat (map (extracted_names pv h0 obj) reqs))) h h'"
  using assms(3,4)
proof (induction reqs arbitrary: h errs)
  case Nil
  then show ?case by simp
next
  case (Cons r rest)
  have cr: "callable_entries r" and crest: "list_all callable_entries rest"
    using Cons.prems(1) by simp_all
  from requirement_step [OF assms(1,2) cr Cons.prems(2) assms(5), of pv prefix rest errs]
  obtain h1 where
    s: "validate_requirements pv h obj (Ref t) prefix (r # rest) errs =
          validate_requirements pv h1 obj (Ref t) prefix rest (errs @ failure_messages pv h0 obj r)"
       "writes_names prefix (prop_value h0 obj) t (set (extracted_names pv h0 obj r)) h h1"
    by blast
  have d1: "differs_in_target_only (Ref t) h0 h1"
    using differs_trans [OF Cons.prems(2)] s(2) by (simp add: writes_names_def)
  from Cons.IH [OF crest d1, of "errs @ failure_messages pv h0 obj r"] obtain h' where
    r: "validate_requirements pv h1 obj (Ref t) prefix rest (errs @ failure_messages pv h0 obj r) =
          (h', Inr ((errs @ failure_messages pv h0 obj r)
                      @ concat (map (failure_messages pv h0 obj) rest)))"
       "writes_names prefix (prop_value h0 obj) t
          (set (concat (map (extracted_names pv h0 obj) rest))) h1 h'"
    by blast
  have "validate_requirements pv h obj (Ref t) prefix (r # rest) errs =
          (h', Inr (errs @ concat (map (failure_messages pv h0 obj) (r # rest))))"
    using s(1) r(1) by simp
  moreover have "writes_names prefix (prop_value h0 obj) t
          (set (concat (map (extracted_names pv h0 obj) (r # rest)))) h h'"
    using writes_names_trans [OF s(2) r(2)] by simp
  ultimately show ?case by blast
qed

section \<open>The whole call\<close>

lemma getExtractedParamsObject_cases:
  assumes "getExtractedParamsObject h tgt = Inr (h1, target)"
  shows "(tgt = Prim Undefined \<or> tgt = Prim Null) \<and> h1 = h @ [empty_object] \<and> target = Ref (length h)
       \<or> (\<exists>a. tgt = Ref a \<and> h1 = h \<and> target = Ref a)"
  using assms
  by (cases tgt) (auto simp: getExtractedParamsObject_def split: if_splits elim: typeof_prim.elims)

lemma accepted_append_empty [simp]:
  "accepted pv (h @ [empty_object]) obj n = accepted pv h obj n"
  by (simp add: accepted_def)

lemma failure_messages_append_empty [simp]:
  "failure_messages pv (h @ [empty_object]) obj r = failure_messages pv h obj r"
  by (cases "(pv, h, obj, r)" rule: failure_messages.cases)
     (simp_all cong: if_cong option.case_cong)

lemma extracted_names_append_empty [simp]:
  "extracted_names pv (h @ [empty_object]) obj r = extracted_names pv h obj r"
proof -
  have a: "accepted pv (h @ [empty_object]) obj = accepted pv h obj" by (rule ext) simp
  have s: "to_string (h @ [empty_object]) = to_string h" by (rule ext) simp
  show ?thesis
    by (cases "(pv, h, obj, r)" rule: extracted_names.cases) (simp_all add: a s)
qed

lemma prefix_choice:
  assumes "accepted_addPrefix opts"
  shows "(if truthy (addPrefix opts) then addPrefix opts else Prim (Str [])) = Prim (Str (prefix_of opts))"
  using assms
  by (auto simp: accepted_addPrefix_def prefix_of_def split: jsval.splits prim.splits)




lemma store_extended:
  assumes "length h2 = Suc (length h)"
    and "\<forall>b. b \<noteq> length h \<longrightarrow> obj_at h2 b = obj_at (h @ [e]) b"
  shows "h2 = h @ [h2 ! length h]"
proof (rule nth_equalityI)
  show "length h2 = length (h @ [h2 ! length h])" using assms(1) by simp
next
  fix i assume i: "i < length h2"
  show "h2 ! i = (h @ [h2 ! length h]) ! i"
  proof (cases "i = length h")
    case True then show ?thesis by simp
  next
    case False
    then have "i < length h" using i assms(1) by simp
    moreover have "obj_at h2 i = obj_at (h @ [e]) i" using assms(2) False by simp
    ultimately show ?thesis using i by (simp add: obj_at_def nth_append)
  qed
qed



lemma typeof_append_empty [simp]: "typeof (h @ [empty_object]) v = typeof h v"
  by (cases v) simp_all

lemma getValidationErrorSubclass_append_empty [simp]:
  "getValidationErrorSubclass (h @ [empty_object]) opts = getValidationErrorSubclass h opts"
  by (simp add: getValidationErrorSubclass_def
      split: errorClass_value.splits jsval.splits prim.splits)

lemma newly_created_append_empty: "newly_created (h @ [empty_object]) (length h)"
  by (simp add: newly_created_def obj_at_def)

lemma validate_fresh_target:
  assumes "tgt = Prim Undefined \<or> tgt = Prim Null"
    and "getValidationErrorSubclass h opts = Inr c"
    and "truthy obj" and "obj \<noteq> Ref (length h)" and "list_all callable_entries reqs"
    and "accepted_addPrefix opts"
  shows "\<exists>ob. validate pv h obj (Array reqs) tgt opts =
                 (h @ [ob], if concat (map (failure_messages pv h obj) reqs) = [] then Inr (Ref (length h))
                      else Inl (Throw c (join '' '' (concat (map (failure_messages pv h obj) reqs)))))
              \<and> map_of (props ob) = merged (prefix_of opts) (prop_value h obj)
                   (set (concat (map (extracted_names pv h obj) reqs))) Map.empty
              \<and> distinct (map fst (props ob)) \<and> \<not> callable ob \<and> repr ob = ''[object Object]''
              \<and> proto ob = Builtin ObjectPrototype"
proof -
  let ?t = "length h"
  let ?h1 = "h @ [empty_object]"
  let ?N = "set (concat (map (extracted_names pv h obj) reqs))"
  have g: "getExtractedParamsObject h tgt = Inr (?h1, Ref ?t)"
    using getExtractedParamsObject_omitted assms(1) by blast
  have c: "getValidationErrorSubclass ?h1 opts = Inr c" using assms(2) by simp
  have fm: "failure_messages pv ?h1 obj = failure_messages pv h obj" by auto
  have en: "extracted_names pv ?h1 obj = extracted_names pv h obj" by auto
  have pv: "prop_value ?h1 obj = prop_value h obj" by auto
  from validate_requirements_result
    [OF assms(3,4,5) differs_refl newly_created_append_empty, of pv "prefix_of opts" "[]"]
  obtain h2 where
    r: "validate_requirements pv ?h1 obj (Ref ?t) (prefix_of opts) reqs [] =
          (h2, Inr (concat (map (failure_messages pv h obj) reqs)))"
       "writes_names (prefix_of opts) (prop_value h obj) ?t ?N ?h1 h2"
    unfolding fm en pv by auto
  have v: "validate pv h obj (Array reqs) tgt opts =
          (h2, if concat (map (failure_messages pv h obj) reqs) = [] then Inr (Ref ?t)
               else Inl (Throw c (join '' '' (concat (map (failure_messages pv h obj) reqs)))))"
    unfolding validate_def
    by (simp add: g assms(2,3) prefix_choice [OF assms(6)] r(1) aggregate_message_join
        del: concat_eq_Nil_conv)
  have d: "differs_in_target_only (Ref ?t) ?h1 h2"
    and m: "map_of (props (h2 ! ?t)) = merged (prefix_of opts) (prop_value h obj) ?N Map.empty"
    and di: "distinct (map fst (props (obj_at h2 ?t)))"
    using r(2) by (auto simp: writes_names_def obj_at_def)
  have l: "length h2 = Suc ?t" using d by (simp add: differs_in_target_only_def)
  have o: "\<forall>b. b \<noteq> ?t \<longrightarrow> obj_at h2 b = obj_at ?h1 b"
    using d by (simp add: differs_in_target_only_def)
  have e: "h2 = h @ [h2 ! ?t]" using store_extended [OF l o] .
  have k: "callable (obj_at h2 ?t) = False" "repr (obj_at h2 ?t) = ''[object Object]''"
    "proto (obj_at h2 ?t) = Builtin ObjectPrototype"
    using d by (simp_all add: differs_in_target_only_def del: obj_at_append_empty)
       (simp_all add: obj_at_def)
  have "validate pv h obj (Array reqs) tgt opts =
          (h @ [h2 ! ?t], if concat (map (failure_messages pv h obj) reqs) = [] then Inr (Ref ?t)
               else Inl (Throw c (join '' '' (concat (map (failure_messages pv h obj) reqs)))))"
    using v e by simp
  moreover have "distinct (map fst (props (h2 ! ?t)))" "\<not> callable (h2 ! ?t)"
    "repr (h2 ! ?t) = ''[object Object]''" "proto (h2 ! ?t) = Builtin ObjectPrototype"
    using di k l by (simp_all add: obj_at_def)
  ultimately show ?thesis using m by blast
qed

section \<open>Successful validation\<close>



section \<open>What any call does to the store and can raise\<close>

lemma get_prop_throws: "get_prop h obj key = Inl e \<Longrightarrow> e = EngineTypeError"
  by (cases "(h, obj, key)" rule: get_prop.cases) auto

lemma failure_text_invalid [simp]: "failure_text (invalid_value_text h v name)"
  by (simp add: failure_text_def invalid_value_text_def)

lemma failure_text_one_of [simp]: "failure_text (one_of_text h names)"
  by (simp add: failure_text_def one_of_text_def)

lemma pass_outcome_refl [simp]: "pass_outcome errs (Inr errs)"
  by (simp add: pass_outcome_def)

lemma pass_outcome_engine [simp]: "pass_outcome errs (Inl EngineTypeError)"
  by (simp add: pass_outcome_def)

lemma pass_outcome_extend:
  "list_all failure_text new \<Longrightarrow> pass_outcome (errs @ new) r \<Longrightarrow> pass_outcome errs r"
proof (cases r)
  case (Inl e)
  assume "pass_outcome (errs @ new) r"
  then show ?thesis using Inl by (simp add: pass_outcome_def)
next
  case (Inr errs')
  assume n: "list_all failure_text new" and p: "pass_outcome (errs @ new) r"
  from p Inr have t: "take (length errs + length new) errs' = errs @ new"
    and d: "list_all failure_text (drop (length errs + length new) errs')"
    by (simp_all add: pass_outcome_def)
  have e: "errs' = errs @ new @ drop (length errs + length new) errs'"
    using t append_take_drop_id [of "length errs + length new" errs'] by simp
  have "take (length errs) errs' = errs"
    by (subst e) simp
  moreover have "drop (length errs) errs' = new @ drop (length errs + length new) errs'"
    by (subst e) simp
  ultimately show ?thesis using Inr n d by (simp add: pass_outcome_def)
qed

lemma executeValidationFunction_outcome:
  "(executeValidationFunction h obj name f = Inl e \<longrightarrow> pass_outcome errs (Inl e))
   \<and> (executeValidationFunction h obj name f = Inr res \<longrightarrow> list_all failure_text (errors res))"
proof (cases f)
  case None
  have "take 52 (''A paramRequirement value provided for the parameter '' @ x)
          = ''A paramRequirement value provided for the parameter ''" for x :: string
    by simp
  then show ?thesis using None by (auto simp: executeValidationFunction_def pass_outcome_def)
next
  case (Some g)
  show ?thesis
  proof (cases "get_prop h obj name")
    case (Inl e')
    then have "e' = EngineTypeError" by (rule get_prop_throws)
    then show ?thesis using Some Inl by (simp add: executeValidationFunction_def pass_outcome_def)
  next
    case (Inr v)
    then show ?thesis using Some
      by (auto simp: executeValidationFunction_def failure_text_def)
  qed
qed

lemma collect_valid_throws:
  "collect_valid h isValid obj names acc = Inl e \<Longrightarrow> e = EngineTypeError"
proof (induction names arbitrary: acc)
  case Nil then show ?case by simp
next
  case (Cons n ns)
  then show ?case
    by (cases "get_prop h obj (to_string h n)") (auto dest: get_prop_throws split: if_splits)
qed

lemma performLogicalOr_outcome:
  assumes "names \<noteq> []"
  shows "(performLogicalOrParamValidation pv h obj names = Inl e \<longrightarrow> pass_outcome errs (Inl e))
   \<and> (performLogicalOrParamValidation pv h obj names = Inr res \<longrightarrow> list_all failure_text (errors res))"
proof (cases "collect_valid h (defaultValidation pv) obj names []")
  case (Inl e')
  then have "e' = EngineTypeError" by (rule collect_valid_throws)
  then show ?thesis using Inl by (simp add: performLogicalOrParamValidation_def pass_outcome_def)
next
  case (Inr ps)
  then show ?thesis
    by (auto simp: performLogicalOrParamValidation_def one_of_message_text [OF assms])
qed

lemma assignProperties_outcome:
  assumes "assignProperties h t ps prefix = (h', r)"
  shows "differs_in_target_only t h h' \<and> (\<forall>e. r = Some e \<longrightarrow> e = EngineTypeError)"
proof (cases r)
  case None
  then show ?thesis using assignProperties_done [of h t ps prefix h'] assms
    by (simp add: differs_put_all)
next
  case (Some e)
  then show ?thesis using assignProperties_thrown [of h t ps prefix h' e] assms by simp
qed

text \<open>One step of the pass: the partial result is merged, then the pass goes on.\<close>

lemma merge_step_generic:
  assumes step: "(case assignProperties h tgt ps prefix of
                    (h1, Some e) \<Rightarrow> (h1, Inl e)
                  | (h1, None) \<Rightarrow> continue h1) = (h', r)"
    and ms: "list_all failure_text ms"
    and rest: "\<And>h1. continue h1 = (h', r) \<Longrightarrow>
                 differs_in_target_only tgt h1 h' \<and> pass_outcome (errs @ ms) r"
  shows "differs_in_target_only tgt h h' \<and> pass_outcome errs r"
proof -
  obtain h1 r1 where a: "assignProperties h tgt ps prefix = (h1, r1)"
    by (cases "assignProperties h tgt ps prefix")
  from assignProperties_outcome [OF a] have d: "differs_in_target_only tgt h h1"
    and e: "\<forall>e. r1 = Some e \<longrightarrow> e = EngineTypeError" by simp_all
  show ?thesis
  proof (cases r1)
    case None
    then have "continue h1 = (h', r)" using step a by simp
    from rest [OF this] show ?thesis
      using differs_trans [OF d] pass_outcome_extend [OF ms] by blast
  next
    case (Some x)
    then have "h' = h1" "r = Inl EngineTypeError" using step a e by simp_all
    then show ?thesis using d by simp
  qed
qed

lemma validate_entries_generic:
  "validate_entries h obj tgt prefix entries errs = (h', r) \<Longrightarrow>
   differs_in_target_only tgt h h' \<and> pass_outcome errs r"
proof (induction entries arbitrary: h errs)
  case Nil
  then show ?case by auto
next
  case (Cons e es)
  obtain n f where e: "e = (n, f)" by (cases e)
  show ?case
  proof (cases "executeValidationFunction h obj n f")
    case (Inl x)
    then have "h' = h" "r = Inl x" using Cons.prems e by simp_all
    then show ?thesis using executeValidationFunction_outcome [of h obj n f x errs] Inl by simp
  next
    case (Inr res)
    have f: "list_all failure_text (errors res)"
      using executeValidationFunction_outcome [of h obj n f _ errs res] Inr by simp
    show ?thesis
    proof (rule merge_step_generic [where ps = "params res" and ms = "errors res"
          and continue = "\<lambda>h1. validate_entries h1 obj tgt prefix es (errs @ errors res)"])
      show "(case assignProperties h tgt (params res) prefix of
               (h1, Some e) \<Rightarrow> (h1, Inl e)
             | (h1, None) \<Rightarrow> validate_entries h1 obj tgt prefix es (errs @ errors res)) = (h', r)"
        using Cons.prems e Inr by simp
    next
      show "list_all failure_text (errors res)" by (rule f)
    next
      fix h1 assume "validate_entries h1 obj tgt prefix es (errs @ errors res) = (h', r)"
      then show "differs_in_target_only tgt h1 h' \<and> pass_outcome (errs @ errors res) r"
        by (rule Cons.IH)
    qed
  qed
qed

lemma validate_requirements_generic:
  "validate_requirements pv h obj tgt prefix reqs errs = (h', r) \<Longrightarrow>
   differs_in_target_only tgt h h' \<and> pass_outcome errs r"
proof (induction reqs arbitrary: h errs)
  case Nil
  then show ?case by auto
next
  case (Cons q qs)
  consider (or) "isArray q \<and> elements q \<noteq> []"
    | (obj) "(isArray q \<and> elements q \<noteq> []) = False" "typeof_requirement q = TObject"
    | (str) "(isArray q \<and> elements q \<noteq> []) = False" "typeof_requirement q \<noteq> TObject"
            "typeof_requirement q = TString \<and> string_of q \<noteq> []"
    | (skip) "(isArray q \<and> elements q \<noteq> []) = False" "typeof_requirement q \<noteq> TObject"
            "(typeof_requirement q = TString \<and> string_of q \<noteq> []) = False"
    by blast
  then show ?case
  proof cases
    case or
    then have ne: "elements q \<noteq> []" by simp
    show ?thesis
    proof (cases "performLogicalOrParamValidation pv h obj (elements q)")
      case (Inl x)
      then have "h' = h" "r = Inl x" using Cons.prems or by simp_all
      then show ?thesis using performLogicalOr_outcome [OF ne, of pv h obj x errs] Inl by simp
    next
      case (Inr res)
      have f: "list_all failure_text (errors res)"
        using performLogicalOr_outcome [OF ne, of pv h obj _ errs res] Inr by simp
      show ?thesis
      proof (rule merge_step_generic [where ps = "params res" and ms = "errors res"
            and continue = "\<lambda>h1. validate_requirements pv h1 obj tgt prefix qs (errs @ errors res)"])
        show "(case assignProperties h tgt (params res) prefix of
                 (h1, Some e) \<Rightarrow> (h1, Inl e)
               | (h1, None) \<Rightarrow>
                   validate_requirements pv h1 obj tgt prefix qs (errs @ errors res)) = (h', r)"
          using Cons.prems or Inr by simp
      next
        show "list_all failure_text (errors res)" by (rule f)
      next
        fix h1 assume "validate_requirements pv h1 obj tgt prefix qs (errs @ errors res) = (h', r)"
        then show "differs_in_target_only tgt h1 h' \<and> pass_outcome (errs @ errors res) r"
          by (rule Cons.IH)
      qed
    qed
  next
    case obj
    obtain h1 r1 where e: "validate_entries h obj tgt prefix (for_in q) errs = (h1, r1)"
      by (cases "validate_entries h obj tgt prefix (for_in q) errs")
    from validate_entries_generic [OF e] have d1: "differs_in_target_only tgt h h1"
      and p1: "pass_outcome errs r1" by simp_all
    show ?thesis
    proof (cases r1)
      case (Inl x)
      then have "h' = h1" "r = Inl x" using Cons.prems e by (simp_all add: obj)
      then show ?thesis using d1 p1 Inl by simp
    next
      case (Inr errs1)
      have v: "validate_requirements pv h1 obj tgt prefix qs errs1 = (h', r)"
        using Cons.prems e Inr by (simp add: obj)
      from Cons.IH [OF v] have d: "differs_in_target_only tgt h1 h'"
        and p: "pass_outcome errs1 r" by simp_all
      have t: "take (length errs) errs1 = errs"
        and f: "list_all failure_text (drop (length errs) errs1)"
        using p1 Inr by (simp_all add: pass_outcome_def)
      have "errs1 = errs @ drop (length errs) errs1"
        using t append_take_drop_id [of "length errs" errs1] by simp
      then have "pass_outcome (errs @ drop (length errs) errs1) r" using p by simp
      from pass_outcome_extend [OF f this] show ?thesis
        using differs_trans [OF d1 d] by simp
    qed
  next
    case str
    show ?thesis
    proof (cases "executeValidationFunction h obj (string_of q) (Some (defaultValidation pv))")
      case (Inl x)
      then have "h' = h" "r = Inl x" using Cons.prems by (simp_all add: str)
      then show ?thesis
        using executeValidationFunction_outcome [of h obj "string_of q" _ x errs] Inl by simp
    next
      case (Inr res)
      have f: "list_all failure_text (errors res)"
        using executeValidationFunction_outcome [of h obj "string_of q" _ _ errs res] Inr by simp
      show ?thesis
      proof (rule merge_step_generic [where ps = "params res" and ms = "errors res"
            and continue = "\<lambda>h1. validate_requirements pv h1 obj tgt prefix qs (errs @ errors res)"])
        show "(case assignProperties h tgt (params res) prefix of
                 (h1, Some e) \<Rightarrow> (h1, Inl e)
               | (h1, None) \<Rightarrow>
                   validate_requirements pv h1 obj tgt prefix qs (errs @ errors res)) = (h', r)"
          using Cons.prems Inr by (simp add: str)
      next
        show "list_all failure_text (errors res)" by (rule f)
      next
        fix h1 assume "validate_requirements pv h1 obj tgt prefix qs (errs @ errors res) = (h', r)"
        then show "differs_in_target_only tgt h1 h' \<and> pass_outcome (errs @ errors res) r"
          by (rule Cons.IH)
      qed
    qed
  next
    case skip
    have "validate_requirements pv h obj tgt prefix qs errs = (h', r)"
      using Cons.prems by (simp add: skip)
    from Cons.IH [OF this] show ?thesis .
  qed
qed






lemma validate_required:
  assumes "getExtractedParamsObject h tgt = Inr (h1, target)"
    and "getValidationErrorSubclass h1 opts = Inr c"
    and "\<not> truthy obj"
  shows "validate pv h obj reqs tgt opts = (h1, Inl (Throw c ''A params object is required.''))"
  using assms by (simp add: validate_def)

section \<open>The pass is the sequence of its checks\<close>

lemma add_own_map:
  "add_own k (f k) (map (\<lambda>k. (k, f k)) ks) = map (\<lambda>k. (k, f k)) (place k ks)"
  by (induction ks) simp_all

lemma set_place [simp]: "set (place k ks) = insert k (set ks)"
  by (induction ks) auto

lemma distinct_place: "k \<notin> set ks \<Longrightarrow> distinct ks \<Longrightarrow> distinct (place k ks)"
  by (induction ks) auto

lemma set_listed: "set (listed seen ks) = set seen \<union> set ks"
  by (induction ks arbitrary: seen) auto

lemma collect_valid_exact:
  assumes "truthy obj" and "distinct seen"
  shows "collect_valid h isValid obj names (map (\<lambda>k. (k, prop_value h obj k)) seen) =
           Inr (map (\<lambda>k. (k, prop_value h obj k))
                  (listed seen
                     (map (to_string h)
                        (filter (\<lambda>n. truthy (isValid (prop_value h obj (to_string h n)))) names))))"
  using assms(2)
proof (induction names arbitrary: seen)
  case Nil
  then show ?case by simp
next
  case (Cons n ns)
  let ?val = "\<lambda>k. (k, prop_value h obj k)"
  let ?k = "to_string h n"
  let ?acc = "map ?val seen"
  show ?case
  proof (cases "truthy (isValid (prop_value h obj ?k))")
    case False
    then show ?thesis
      using Cons.IH [OF Cons.prems] by (simp add: get_prop_truthy [OF assms(1)])
  next
    case True
    show ?thesis
    proof (cases "?k \<in> set seen")
      case seen: True
      have "(?k, prop_value h obj ?k) \<in> set ?acc" using seen by auto
      moreover have "distinct (map fst ?acc)" using Cons.prems by (simp add: comp_def)
      ultimately have "define_own ?k (prop_value h obj ?k) ?acc = ?acc"
        by (rule update_same)
      then show ?thesis
        using Cons.IH [OF Cons.prems] True seen by (simp add: get_prop_truthy [OF assms(1)])
    next
      case new: False
      have "map_of ?acc ?k = None" using new by (auto simp: map_of_eq_None_iff image_image)
      then have u: "define_own ?k (prop_value h obj ?k) ?acc = map ?val (place ?k seen)"
        using add_own_map [of ?k "prop_value h obj" seen]
        by (simp add: define_own_def del: define_own_plain)
      have d: "distinct (place ?k seen)" using Cons.prems new by (simp add: distinct_place)
      show ?thesis
        using Cons.IH [OF d] True new by (simp add: get_prop_truthy [OF assms(1)] u)
    qed
  qed
qed

lemma performLogicalOr_exact:
  assumes "truthy obj" and "names \<noteq> []"
  shows "performLogicalOrParamValidation pv h obj names =
           Inr \<lparr>errors = check_messages pv h obj (OneOf names),
                params = map (\<lambda>k. (k, prop_value h obj k)) (check_names pv h obj (OneOf names))\<rparr>"
proof -
  let ?keys = "map (to_string h) (filter (accepted pv h obj) names)"
  have c: "collect_valid h (defaultValidation pv) obj names [] =
             Inr (map (\<lambda>k. (k, prop_value h obj k)) (listed [] ?keys))"
    using collect_valid_exact [OF assms(1), of "[]" h "defaultValidation pv" names]
    by (simp add: accepted_def [abs_def])
  have "(listed [] ?keys = []) = (set (listed [] ?keys) = {})" by simp
  then have e: "(listed [] ?keys = []) = (\<not> (\<exists>n \<in> set names. accepted pv h obj n))"
    by (auto simp: set_listed filter_empty_conv)
  show ?thesis
    using e by (simp add: performLogicalOrParamValidation_def c one_of_message_text [OF assms(2)])
qed

lemma put_names_single: "put_names h tgt prefix obj [n] = put_all h tgt prefix [(n, prop_value h obj n)]"
  by (simp add: put_names_def)

lemma put_names_Nil [simp]: "put_names h tgt prefix obj [] = h"
  by (simp add: put_names_def)






text \<open>
  The pass runs to its end when every descriptor entry is a function and the target
  accepts every assignment.
\<close>

lemma validate_entries_completes:
  assumes "truthy obj"
  shows "list_all (\<lambda>(n, f). f \<noteq> None) entries \<Longrightarrow> accepts_writes h tgt \<Longrightarrow>
         \<exists>h2 errs2. validate_entries h obj tgt prefix entries errs = (h2, Inr errs2)"
proof (induction entries arbitrary: h errs)
  case Nil
  then show ?case by simp
next
  case (Cons e es)
  obtain n f where e: "e = (n, f)" by (cases e)
  obtain g where f: "f = Some g" using Cons.prems(1) e by auto
  obtain res where x: "executeValidationFunction h obj n (Some g) = Inr res"
    using executeValidationFunction_Some [OF assms, of h n g] by simp
  let ?h1 = "put_all h tgt prefix (params res)"
  have as: "assignProperties h tgt (params res) prefix = (?h1, None)"
    by (rule assignProperties_accepted [OF Cons.prems(2)])
  have a1: "accepts_writes ?h1 tgt"
    using Cons.prems(2) differs_accepts_writes [OF differs_put_all] by simp
  have "list_all (\<lambda>(n, f). f \<noteq> None) es" using Cons.prems(1) by simp
  from Cons.IH [OF this a1, of "errs @ errors res"]
  show ?case by (simp add: e f x as)
qed

lemma validate_requirements_completes:
  assumes "truthy obj"
  shows "list_all callable_entries reqs \<Longrightarrow> accepts_writes h tgt \<Longrightarrow>
         \<exists>h2 errs2. validate_requirements pv h obj tgt prefix reqs errs = (h2, Inr errs2)"
proof (induction reqs arbitrary: h errs)
  case Nil
  then show ?case by simp
next
  case (Cons q qs)
  have rest: "list_all callable_entries qs" using Cons.prems(1) by simp
  consider (or) "isArray q \<and> elements q \<noteq> []"
    | (obj) "(isArray q \<and> elements q \<noteq> []) = False" "typeof_requirement q = TObject"
    | (str) "(isArray q \<and> elements q \<noteq> []) = False" "typeof_requirement q \<noteq> TObject"
            "typeof_requirement q = TString \<and> string_of q \<noteq> []"
    | (skip) "(isArray q \<and> elements q \<noteq> []) = False" "typeof_requirement q \<noteq> TObject"
            "(typeof_requirement q = TString \<and> string_of q \<noteq> []) = False"
    by blast
  then show ?case
  proof cases
    case or
    then have ne: "elements q \<noteq> []" by simp
    obtain res where x: "performLogicalOrParamValidation pv h obj (elements q) = Inr res"
      using performLogicalOr_exact [OF assms ne, of pv h] by simp
    let ?h1 = "put_all h tgt prefix (params res)"
    have as: "assignProperties h tgt (params res) prefix = (?h1, None)"
      by (rule assignProperties_accepted [OF Cons.prems(2)])
    have a1: "accepts_writes ?h1 tgt"
      using Cons.prems(2) differs_accepts_writes [OF differs_put_all] by simp
    from Cons.IH [OF rest a1, of "errs @ errors res"]
    show ?thesis using or by (simp add: x as)
  next
    case obj
    have "list_all (\<lambda>(n, f). f \<noteq> None) (for_in q)"
      using Cons.prems(1) by (simp add: callable_entries_def)
    from validate_entries_completes [OF assms this Cons.prems(2), of prefix errs] obtain h1 errs1 where
      e: "validate_entries h obj tgt prefix (for_in q) errs = (h1, Inr errs1)" by blast
    have a1: "accepts_writes h1 tgt"
      using validate_entries_generic [OF e] Cons.prems(2) differs_accepts_writes by blast
    from Cons.IH [OF rest a1, of errs1]
    show ?thesis by (simp add: obj e)
  next
    case str
    obtain res where
      x: "executeValidationFunction h obj (string_of q) (Some (defaultValidation pv)) = Inr res"
      using executeValidationFunction_Some [OF assms, of h "string_of q" "defaultValidation pv"]
      by simp
    let ?h1 = "put_all h tgt prefix (params res)"
    have as: "assignProperties h tgt (params res) prefix = (?h1, None)"
      by (rule assignProperties_accepted [OF Cons.prems(2)])
    have a1: "accepts_writes ?h1 tgt"
      using Cons.prems(2) differs_accepts_writes [OF differs_put_all] by simp
    from Cons.IH [OF rest a1, of "errs @ errors res"]
    show ?thesis by (simp add: str x as)
  next
    case skip
    from Cons.IH [OF rest Cons.prems(2), of errs]
    show ?thesis by (simp add: skip)
  qed
qed


section \<open>Failed validation\<close>






section \<open>The prefix option\<close>

lemma getValidationErrorSubclass_addPrefix [simp]:
  "getValidationErrorSubclass h (opts\<lparr>addPrefix := v\<rparr>) = getValidationErrorSubclass h opts"
  by (simp add: getValidationErrorSubclass_def)

lemma validate_falsy_prefix:
  "\<not> truthy (addPrefix opts) \<Longrightarrow>
   validate pv h obj reqs tgt opts = validate pv h obj reqs tgt (opts\<lparr>addPrefix := Prim (Str [])\<rparr>)"
  by (simp add: validate_def split: sum.splits prod.splits requirements.splits)

lemma validate_bad_prefix:
  assumes "getExtractedParamsObject h tgt = Inr (h1, target)"
    and "getValidationErrorSubclass h1 opts = Inr c"
    and "truthy obj" and "truthy (addPrefix opts)" and "\<forall>p. addPrefix opts \<noteq> Prim (Str p)"
  shows "validate pv h obj (Array reqs) tgt opts =
           (h1, Inl (Throw Error ''addPrefix option must be a string if provided.''))"
  using assms by (simp add: validate_def split: jsval.splits prim.splits)

text \<open>
  C6.  The claim is what the code announces: its message reads
  \<open>addPrefix option must be a string if provided.\<close>, and the test suite has the case
  "throws an error when a value is provided that's not a string".  The code tests the
  type after \<open>options.addPrefix || ''\<close> (line 83), so a provided value that is falsy
  is replaced by the empty string before the test and never rejected.  With
  \<open>addPrefix: 0\<close> the call succeeds and extracts \<open>cat\<close> under no prefix, where
  \<open>addPrefix: 4\<close> fails as the claim says.
\<close>

theorem addPrefix_zero_is_not_rejected:
  "validate parameterValidator [animalNames] (Ref 0) (Array [ReqPrim (Str ''cat'')])
     (Prim Undefined) (default_options\<lparr>addPrefix := Prim (Num ''0'')\<rparr>) =
     ([animalNames, empty_object\<lparr>props := [(''cat'', Prim (Str ''Garfield''))]\<rparr>], Inr (Ref 1))
   \<and> validate parameterValidator [animalNames] (Ref 0) (Array [ReqPrim (Str ''cat'')])
     (Prim Undefined) (default_options\<lparr>addPrefix := Prim (Num ''4'')\<rparr>) =
     ([animalNames, empty_object],
      Inl (Throw Error ''addPrefix option must be a string if provided.''))"
proof -
  have pv: "prop_value [animalNames] (Ref 0) ''cat'' = Prim (Str ''Garfield'')"
    by (simp add: prop_value_def lookup_own obj_at_def animalNames_def)
  have "validate parameterValidator [animalNames] (Ref 0) (Array [ReqPrim (Str ''cat'')])
     (Prim Undefined) (default_options\<lparr>addPrefix := Prim (Num ''0'')\<rparr>) =
     validate parameterValidator [animalNames] (Ref 0) (Array [ReqPrim (Str ''cat'')])
     (Prim Undefined) default_options"
    by (simp add: validate_def default_options_def getValidationErrorSubclass_def
        getExtractedParamsObject_def)
  also have "\<dots> =
     ([animalNames, empty_object\<lparr>props := [(''cat'', Prim (Str ''Garfield''))]\<rparr>], Inr (Ref 1))"
    using validate_single_string [of "Ref 0" "''cat''" parameterValidator "[animalNames]"]
    by (simp add: pv parameterValidator_def defaultValidation_def isDefined_def)
  finally have zero: "validate parameterValidator [animalNames] (Ref 0) (Array [ReqPrim (Str ''cat'')])
     (Prim Undefined) (default_options\<lparr>addPrefix := Prim (Num ''0'')\<rparr>) =
     ([animalNames, empty_object\<lparr>props := [(''cat'', Prim (Str ''Garfield''))]\<rparr>], Inr (Ref 1))" .
  have four: "validate parameterValidator [animalNames] (Ref 0) (Array [ReqPrim (Str ''cat'')])
     (Prim Undefined) (default_options\<lparr>addPrefix := Prim (Num ''4'')\<rparr>) =
     ([animalNames, empty_object],
      Inl (Throw Error ''addPrefix option must be a string if provided.''))"
    by (rule validate_bad_prefix [where c = ParameterValidationError and target = "Ref 1"])
       (simp_all add: getExtractedParamsObject_def)
  from zero four show ?thesis by blast
qed

section \<open>Usage errors\<close>

lemma executeValidationFunction_None:
  "executeValidationFunction h obj name None = Inl (Throw Error (not_a_function_text name))"
  by (simp add: executeValidationFunction_def not_a_function_text_def)

lemma validate_entries_throws:
  assumes "truthy obj"
  shows "\<not> list_all (\<lambda>(n, f). f \<noteq> None) entries \<Longrightarrow> accepts_writes h tgt \<Longrightarrow>
         \<exists>h1 name. validate_entries h obj tgt prefix entries errs =
           (h1, Inl (Throw Error (not_a_function_text name)))"
proof (induction entries arbitrary: h errs)
  case Nil
  then show ?case by simp
next
  case (Cons e es)
  obtain n f where e: "e = (n, f)" by (cases e)
  show ?case
  proof (cases f)
    case None
    then show ?thesis by (auto simp: e executeValidationFunction_None)
  next
    case (Some g)
    obtain res where x: "executeValidationFunction h obj n (Some g) = Inr res"
      using executeValidationFunction_Some [OF assms, of h n g] by simp
    let ?h1 = "put_all h tgt prefix (params res)"
    have as: "assignProperties h tgt (params res) prefix = (?h1, None)"
      by (rule assignProperties_accepted [OF Cons.prems(2)])
    have a1: "accepts_writes ?h1 tgt"
      using Cons.prems(2) differs_accepts_writes [OF differs_put_all] by simp
    have "\<not> list_all (\<lambda>(n, f). f \<noteq> None) es" using Cons.prems(1) e Some by simp
    from Cons.IH [OF this a1, of "errs @ errors res"]
    show ?thesis by (simp add: e Some x as)
  qed
qed

lemma not_callable_entries: "\<not> callable_entries q \<Longrightarrow> \<exists>entries. q = ReqObject entries"
  by (cases q) (simp_all add: callable_entries_def)

lemma validate_requirements_throws:
  assumes "truthy obj"
  shows "\<not> list_all callable_entries reqs \<Longrightarrow> accepts_writes h tgt \<Longrightarrow>
         \<exists>h1 name. validate_requirements pv h obj tgt prefix reqs errs =
           (h1, Inl (Throw Error (not_a_function_text name)))"
proof (induction reqs arbitrary: h errs)
  case Nil
  then show ?case by simp
next
  case (Cons q qs)
  show ?case
  proof (cases "callable_entries q")
    case True
    then have rest: "\<not> list_all callable_entries qs" using Cons.prems(1) by simp
    from validate_requirements_completes [OF assms, of "[q]" h tgt pv prefix errs] True Cons.prems(2)
    obtain h1 errs1 where
      one: "validate_requirements pv h obj tgt prefix [q] errs = (h1, Inr errs1)" by auto
    have a1: "accepts_writes h1 tgt"
      using validate_requirements_generic [OF one] Cons.prems(2) differs_accepts_writes by blast
    have "validate_requirements pv h obj tgt prefix (q # qs) errs =
            validate_requirements pv h1 obj tgt prefix qs errs1"
      using one by (auto split: if_splits sum.splits prod.splits option.splits)
    then show ?thesis using Cons.IH [OF rest a1, of errs1] by simp
  next
    case False
    then obtain entries where q: "q = ReqObject entries" using not_callable_entries by blast
    have "\<not> list_all (\<lambda>(n, f). f \<noteq> None) entries"
      using False q by (simp add: callable_entries_def)
    from validate_entries_throws [OF assms this Cons.prems(2), of prefix errs] obtain h1 name where
      "validate_entries h obj tgt prefix entries errs =
         (h1, Inl (Throw Error (not_a_function_text name)))" by blast
    then show ?thesis by (auto simp: q)
  qed
qed

lemma validate_not_callable:
  assumes "getExtractedParamsObject h tgt = Inr (h1, target)"
    and "getValidationErrorSubclass h1 opts = Inr c"
    and "truthy obj" and "accepted_addPrefix opts" and "\<not> list_all callable_entries rs"
    and "accepts_writes h1 target"
  shows "\<exists>name. snd (validate pv h obj (Array rs) tgt opts) =
           Inl (Throw Error (not_a_function_text name))"
proof -
  from validate_requirements_throws [OF assms(3,5,6), of pv "prefix_of opts" "[]"]
  obtain h2 name where
    "validate_requirements pv h1 obj target (prefix_of opts) rs [] =
       (h2, Inl (Throw Error (not_a_function_text name)))" by blast
  then have "snd (validate pv h obj (Array rs) tgt opts) = Inl (Throw Error (not_a_function_text name))"
    using assms(1,2,3) by (simp add: validate_def prefix_choice [OF assms(4)])
  then show ?thesis by blast
qed

lemma validate_bad_errorClass:
  assumes "getExtractedParamsObject h tgt = Inr (h1, target)"
    and "errorClass opts = OtherValue v" and "v \<noteq> Prim Undefined" and "v \<noteq> Prim Null"
  shows "validate pv h obj reqs tgt opts =
           (h1, Inl (Throw Error (''The errorClass provided was of type ''
                  @ type_name (typeof h1 v) @ '' and was not an Error subclass.'')))"
  using assms
  by (simp add: validate_def getValidationErrorSubclass_def split: jsval.splits prim.splits)

lemma validate_null_errorClass:
  assumes "getExtractedParamsObject h tgt = Inr (h1, target)"
    and "errorClass opts = OtherValue (Prim Null)"
  shows "validate pv h obj reqs tgt opts = (h1, Inl EngineTypeError)"
  using assms by (simp add: validate_def getValidationErrorSubclass_def)

lemma validate_rules_fail:
  assumes "getExtractedParamsObject h tgt = Inr (h1, target)"
    and "getValidationErrorSubclass h1 opts = Inr c"
    and "truthy obj" and "rules_fail pv h1 obj target opts reqs"
  shows "\<exists>m. snd (validate pv h obj reqs tgt opts) = Inl (Throw c m)"
proof (cases reqs)
  case NotArray
  then show ?thesis using assms(4) by (simp add: rules_fail_def)
next
  case (Array rs)
  have ap: "accepted_addPrefix opts" using assms(4) Array by (simp add: rules_fail_def)
  obtain h2 r where v: "validate_requirements pv h1 obj target (prefix_of opts) rs [] = (h2, r)"
    by (cases "validate_requirements pv h1 obj target (prefix_of opts) rs []")
  then obtain errs where "r = Inr errs" "errs \<noteq> []"
    using assms(4) Array by (cases r) (simp_all add: rules_fail_def)
  then show ?thesis
    using v Array assms(1,2,3) by (simp add: validate_def prefix_choice [OF ap])
qed

lemma validate_error_class:
  assumes "getExtractedParamsObject h tgt = Inr (h1, target)"
    and "getValidationErrorSubclass h1 opts = Inr c"
    and "snd (validate pv h obj reqs tgt opts) = Inl (Throw k m)"
  shows "if \<not> truthy obj \<or> rules_fail pv h1 obj target opts reqs then k = c else k = Error"
proof (cases "truthy obj")
  case False
  then show ?thesis using assms validate_required [OF assms(1,2), of obj pv reqs] by simp
next
  case True
  show ?thesis
  proof (cases reqs)
    case NotArray
    then show ?thesis using assms True by (simp add: validate_def rules_fail_def)
  next
    case (Array rs)
    show ?thesis
    proof (cases "accepted_addPrefix opts")
      case False
      then have "truthy (addPrefix opts)" "\<forall>p. addPrefix opts \<noteq> Prim (Str p)"
        by (auto simp: accepted_addPrefix_def split: jsval.splits prim.splits)
      from validate_bad_prefix [OF assms(1,2) True this, of pv rs]
      show ?thesis using assms(3) Array False True by (simp add: rules_fail_def)
    next
      case ap: True
      obtain h2 r where v: "validate_requirements pv h1 obj target (prefix_of opts) rs [] = (h2, r)"
        by (cases "validate_requirements pv h1 obj target (prefix_of opts) rs []")
      from validate_requirements_generic [OF v] have po: "pass_outcome [] r" by simp
      show ?thesis
      proof (cases r)
        case (Inl e)
        then have "snd (validate pv h obj reqs tgt opts) = Inl e"
          using v Array assms(1,2) True by (simp add: validate_def prefix_choice [OF ap])
        then have "e = Throw k m" using assms(3) by simp
        then have "k = Error" using po Inl by (simp add: pass_outcome_def)
        moreover have "\<not> rules_fail pv h1 obj target opts reqs"
          using v Inl Array by (simp add: rules_fail_def)
        ultimately show ?thesis using True by simp
      next
        case (Inr errs)
        show ?thesis
        proof (cases "errs = []")
          case True
          then have "snd (validate pv h obj reqs tgt opts) = Inr target"
            using v Inr Array assms(1,2) \<open>truthy obj\<close>
            by (simp add: validate_def prefix_choice [OF ap])
          then show ?thesis using assms(3) by simp
        next
          case False
          then have "snd (validate pv h obj reqs tgt opts) = Inl (Throw c (aggregate_message errs))"
            using v Inr Array assms(1,2) \<open>truthy obj\<close>
            by (simp add: validate_def prefix_choice [OF ap])
          then have "k = c" using assms(3) by simp
          moreover have "rules_fail pv h1 obj target opts reqs"
            using v Inr Array False ap by (simp add: rules_fail_def)
          ultimately show ?thesis by simp
        qed
      qed
    qed
  qed
qed

text \<open>
  C7, in the form that holds.  Each of these malformed calls raises a plain \<open>Error\<close>,
  provided the checks before it pass: an output target of a wrong type; an
  \<open>errorClass\<close> that is no error class (for \<open>null\<close> the engine raises its TypeError
  instead); a rule list that is no array; a truthy \<open>addPrefix\<close> that is no string; a
  descriptor entry that is no function (shown for the helper, and for \<open>validate\<close> on any
  rule list with such an entry when the target accepts every assignment).  The missing
  values object is the exception: it is raised with the validation error class itself,
  which is \<open>ParameterValidationError\<close> unless \<open>options.errorClass\<close> names another
  class, and which is also the class of the error raised when rules fail.

  So for every error that \<open>validate\<close> itself throws: its class is the validation error
  class if the values object is missing or rules have failed, and \<open>Error\<close> otherwise.
  The class of the error tells a usage error other than the missing values object from a
  validation failure exactly when the validation error class is not \<open>Error\<close> itself,
  which \<open>options.errorClass\<close> may name.
\<close>

theorem usage_errors_are_plain_errors_except_missing_params:
  "(extractedParams = Prim p \<and> p \<noteq> Undefined \<and> p \<noteq> Null \<longrightarrow>
      snd (validate pv h paramsProvided reqs extractedParams opts) =
        Inl (Throw Error (invalid_target_text h (Prim p))))
   \<and> (getExtractedParamsObject h extractedParams = Inr (h1, target) \<longrightarrow>
        (errorClass opts = OtherValue v \<and> v \<noteq> Prim Undefined \<and> v \<noteq> Prim Null \<longrightarrow>
           snd (validate pv h paramsProvided reqs extractedParams opts) =
             Inl (Throw Error (''The errorClass provided was of type ''
                    @ type_name (typeof h1 v) @ '' and was not an Error subclass.'')))
      \<and> (errorClass opts = OtherValue (Prim Null) \<longrightarrow>
           snd (validate pv h paramsProvided reqs extractedParams opts) = Inl EngineTypeError)
      \<and> (getValidationErrorSubclass h1 opts = Inr c \<longrightarrow>
           (\<not> truthy paramsProvided \<longrightarrow>
              snd (validate pv h paramsProvided reqs extractedParams opts) =
                Inl (Throw c ''A params object is required.''))
         \<and> (truthy paramsProvided \<longrightarrow>
              snd (validate pv h paramsProvided NotArray extractedParams opts) =
                Inl (Throw Error ''paramRequirements must be an array.''))
         \<and> (truthy paramsProvided \<and> truthy (addPrefix opts)
              \<and> (\<forall>s. addPrefix opts \<noteq> Prim (Str s)) \<longrightarrow>
              snd (validate pv h paramsProvided (Array rs) extractedParams opts) =
                Inl (Throw Error ''addPrefix option must be a string if provided.''))
         \<and> (truthy paramsProvided \<and> accepted_addPrefix opts
              \<and> \<not> list_all callable_entries rs \<and> accepts_writes h1 target \<longrightarrow>
              (\<exists>name. snd (validate pv h paramsProvided (Array rs) extractedParams opts) =
                 Inl (Throw Error (not_a_function_text name))))
         \<and> (truthy paramsProvided \<and> rules_fail pv h1 paramsProvided target opts reqs \<longrightarrow>
              (\<exists>m. snd (validate pv h paramsProvided reqs extractedParams opts) =
                 Inl (Throw c m)))
         \<and> (\<forall>k m. snd (validate pv h paramsProvided reqs extractedParams opts) = Inl (Throw k m) \<longrightarrow>
              (if \<not> truthy paramsProvided \<or> rules_fail pv h1 paramsProvided target opts reqs
               then k = c else k = Error))))
   \<and> (errorClass opts = OtherValue (Prim Undefined) \<longrightarrow>
        getValidationErrorSubclass h opts = Inr ParameterValidationError)
   \<and> (errorClass opts = ClassValue k' \<longrightarrow> getValidationErrorSubclass h opts = Inr k')
   \<and> executeValidationFunction h paramsProvided name None =
        Inl (Throw Error (not_a_function_text name))
   \<and> Error \<noteq> ParameterValidationError"
proof (intro conjI impI allI)
  assume "extractedParams = Prim p \<and> p \<noteq> Undefined \<and> p \<noteq> Null"
  then show "snd (validate pv h paramsProvided reqs extractedParams opts) =
        Inl (Throw Error (invalid_target_text h (Prim p)))"
    by (cases p) (simp_all add: validate_def getExtractedParamsObject_def invalid_target_text_def)
next
  assume "getExtractedParamsObject h extractedParams = Inr (h1, target)"
    and "errorClass opts = OtherValue v \<and> v \<noteq> Prim Undefined \<and> v \<noteq> Prim Null"
  then show "snd (validate pv h paramsProvided reqs extractedParams opts) =
             Inl (Throw Error (''The errorClass provided was of type ''
                    @ type_name (typeof h1 v) @ '' and was not an Error subclass.''))"
    using validate_bad_errorClass [of h extractedParams h1 target opts v pv paramsProvided reqs]
    by simp
next
  assume "getExtractedParamsObject h extractedParams = Inr (h1, target)"
    and "errorClass opts = OtherValue (Prim Null)"
  then show "snd (validate pv h paramsProvided reqs extractedParams opts) = Inl EngineTypeError"
    using validate_null_errorClass [of h extractedParams h1 target opts pv paramsProvided reqs]
    by simp
next
  assume "getExtractedParamsObject h extractedParams = Inr (h1, target)"
    and "getValidationErrorSubclass h1 opts = Inr c" and "\<not> truthy paramsProvided"
  then show "snd (validate pv h paramsProvided reqs extractedParams opts) =
                Inl (Throw c ''A params object is required.'')"
    using validate_required [of h extractedParams h1 target opts c paramsProvided pv reqs] by simp
next
  assume "getExtractedParamsObject h extractedParams = Inr (h1, target)"
    and "getValidationErrorSubclass h1 opts = Inr c" and "truthy paramsProvided"
  then show "snd (validate pv h paramsProvided NotArray extractedParams opts) =
                Inl (Throw Error ''paramRequirements must be an array.'')"
    by (simp add: validate_def)
next
  assume g: "getExtractedParamsObject h extractedParams = Inr (h1, target)"
    and c: "getValidationErrorSubclass h1 opts = Inr c"
    and "truthy paramsProvided \<and> truthy (addPrefix opts) \<and> (\<forall>s. addPrefix opts \<noteq> Prim (Str s))"
  then show "snd (validate pv h paramsProvided (Array rs) extractedParams opts) =
                Inl (Throw Error ''addPrefix option must be a string if provided.'')"
    using validate_bad_prefix [OF g c, of paramsProvided pv rs] by simp
next
  assume g: "getExtractedParamsObject h extractedParams = Inr (h1, target)"
    and c: "getValidationErrorSubclass h1 opts = Inr c"
    and "truthy paramsProvided \<and> accepted_addPrefix opts \<and> \<not> list_all callable_entries rs
           \<and> accepts_writes h1 target"
  then show "\<exists>name. snd (validate pv h paramsProvided (Array rs) extractedParams opts) =
                 Inl (Throw Error (not_a_function_text name))"
    using validate_not_callable [OF g c, of paramsProvided rs pv] by blast
next
  assume g: "getExtractedParamsObject h extractedParams = Inr (h1, target)"
    and c: "getValidationErrorSubclass h1 opts = Inr c"
    and "truthy paramsProvided \<and> rules_fail pv h1 paramsProvided target opts reqs"
  then show "\<exists>m. snd (validate pv h paramsProvided reqs extractedParams opts) = Inl (Throw c m)"
    using validate_rules_fail [OF g c, of paramsProvided pv reqs] by blast
next
  fix k m
  assume g: "getExtractedParamsObject h extractedParams = Inr (h1, target)"
    and c: "getValidationErrorSubclass h1 opts = Inr c"
    and "snd (validate pv h paramsProvided reqs extractedParams opts) = Inl (Throw k m)"
  then show "if \<not> truthy paramsProvided \<or> rules_fail pv h1 paramsProvided target opts reqs
               then k = c else k = Error"
    by (rule validate_error_class)
next
  assume "errorClass opts = OtherValue (Prim Undefined)"
  then show "getValidationErrorSubclass h opts = Inr ParameterValidationError"
    by (simp add: getValidationErrorSubclass_def)
next
  assume "errorClass opts = ClassValue k'"
  then show "getValidationErrorSubclass h opts = Inr k'"
    by (simp add: getValidationErrorSubclass_def)
next
  show "executeValidationFunction h paramsProvided name None =
          Inl (Throw Error (not_a_function_text name))"
    by (rule executeValidationFunction_None)
next
  show "Error \<noteq> ParameterValidationError" by simp
qed

text \<open>
  For the missing values object C7 as stated does not hold: the error is a
  \<open>ParameterValidationError\<close>, the kind of the validation failures.
\<close>

theorem usage_errors_are_plain_errors_except_missing_params_counterexample:
  "validate parameterValidator [] (Prim Undefined) (Array []) (Prim Undefined) default_options =
     ([empty_object], Inl (Throw ParameterValidationError ''A params object is required.''))"
  by (simp add: validate_def getExtractedParamsObject_def)

theorem usage_errors_are_plain_errors_except_missing_params_witness:
  "snd (validate parameterValidator [animalNames] (Ref 0) NotArray (Prim Undefined) default_options)
     = Inl (Throw Error ''paramRequirements must be an array.'')
   \<and> (\<exists>name. snd (validate parameterValidator [animalNames] (Ref 0)
                 (Array [ReqPrim (Str ''cat''), ReqObject [(''dog'', None)]])
                 (Prim Undefined) default_options)
        = Inl (Throw Error (not_a_function_text name)))
   \<and> snd (validate parameterValidator [animalNames] (Ref 0) (Array []) (Prim (Bool True))
            default_options)
     = Inl (Throw Error (''Invalid value of '' @ quote @ ''true'' @ quote
              @ '' was provided for the extractedParams parameter.''))
   \<and> snd (validate parameterValidator [animalNames] (Ref 0) (Array []) (Prim Undefined)
            (default_options\<lparr>errorClass := OtherValue (Prim Null)\<rparr>))
     = Inl EngineTypeError
   \<and> (\<exists>m. snd (validate parameterValidator [animalNames] (Ref 0)
              (Array [ReqPrim (Str ''chicken'')]) (Prim Undefined)
              (default_options\<lparr>errorClass := ClassValue (ErrorSubclass ''MyError'')\<rparr>))
          = Inl (Throw (ErrorSubclass ''MyError'') m))
   \<and> (\<exists>m. snd (validate parameterValidator [animalNames] (Ref 0)
              (Array [ReqPrim (Str ''chicken'')]) (Prim Undefined)
              (default_options\<lparr>errorClass := ClassValue Error\<rparr>))
          = Inl (Throw Error m))"
proof -
  have g: "getExtractedParamsObject [animalNames] (Prim Undefined)
             = Inr ([animalNames, empty_object], Ref 1)"
    by (simp add: getExtractedParamsObject_def)
  have c: "getValidationErrorSubclass [animalNames, empty_object] default_options
             = Inr ParameterValidationError"
    by simp
  note t = usage_errors_are_plain_errors_except_missing_params
    [where pv = parameterValidator and h = "[animalNames]" and paramsProvided = "Ref 0"
       and opts = default_options and extractedParams = "Prim Undefined"
       and rs = "[ReqPrim (Str ''cat''), ReqObject [(''dog'', None)]]",
     THEN conjunct2, THEN conjunct1, THEN mp, OF g, THEN conjunct2, THEN conjunct2, THEN mp, OF c]
  have one: "snd (validate parameterValidator [animalNames] (Ref 0) NotArray (Prim Undefined)
                default_options)
     = Inl (Throw Error ''paramRequirements must be an array.'')"
    using t [THEN conjunct2, THEN conjunct1] by simp
  have two: "\<exists>name. snd (validate parameterValidator [animalNames] (Ref 0)
                 (Array [ReqPrim (Str ''cat''), ReqObject [(''dog'', None)]])
                 (Prim Undefined) default_options)
        = Inl (Throw Error (not_a_function_text name))"
    using t [THEN conjunct2, THEN conjunct2, THEN conjunct2, THEN conjunct1]
    by (simp add: accepted_addPrefix_def callable_entries_def accepts_writes_def obj_at_def)
  have three: "snd (validate parameterValidator [animalNames] (Ref 0) (Array []) (Prim (Bool True))
            default_options)
     = Inl (Throw Error (''Invalid value of '' @ quote @ ''true'' @ quote
              @ '' was provided for the extractedParams parameter.''))"
    using usage_errors_are_plain_errors_except_missing_params
      [where extractedParams = "Prim (Bool True)" and p = "Bool True"
         and pv = parameterValidator and h = "[animalNames]" and paramsProvided = "Ref 0"
         and reqs = "Array []" and opts = default_options, THEN conjunct1]
    by (simp add: invalid_target_text_def)
  have four: "snd (validate parameterValidator [animalNames] (Ref 0) (Array []) (Prim Undefined)
            (default_options\<lparr>errorClass := OtherValue (Prim Null)\<rparr>))
     = Inl EngineTypeError"
    using usage_errors_are_plain_errors_except_missing_params
      [where pv = parameterValidator and h = "[animalNames]" and paramsProvided = "Ref 0"
         and opts = "default_options\<lparr>errorClass := OtherValue (Prim Null)\<rparr>"
         and extractedParams = "Prim Undefined" and reqs = "Array []",
       THEN conjunct2, THEN conjunct1, THEN mp, OF g, THEN conjunct2, THEN conjunct1]
    by simp
  have lk: "lookup [animalNames, empty_object] 0 ''chicken'' = Prim Undefined"
    by (simp add: lookup.simps [of _ 0] obj_at_def animalNames_def parent_def intrinsic_at_def
        empty_object_def)
  have rf: "rules_fail parameterValidator [animalNames, empty_object] (Ref 0) (Ref 1)
              (default_options\<lparr>errorClass := k\<rparr>) (Array [ReqPrim (Str ''chicken'')])" for k
    by (simp add: rules_fail_def accepted_addPrefix_def prefix_of_def executeValidationFunction_def
        lk parameterValidator_def defaultValidation_def isDefined_def)
  have five: "\<exists>m. snd (validate parameterValidator [animalNames] (Ref 0)
              (Array [ReqPrim (Str ''chicken'')]) (Prim Undefined)
              (default_options\<lparr>errorClass := ClassValue k\<rparr>))
          = Inl (Throw k m)" for k
  proof -
    have ck: "getValidationErrorSubclass [animalNames, empty_object]
                (default_options\<lparr>errorClass := ClassValue k\<rparr>) = Inr k"
      by (simp add: getValidationErrorSubclass_def)
    show ?thesis
      using usage_errors_are_plain_errors_except_missing_params
        [where pv = parameterValidator and h = "[animalNames]" and paramsProvided = "Ref 0"
           and opts = "default_options\<lparr>errorClass := ClassValue k\<rparr>"
           and extractedParams = "Prim Undefined" and reqs = "Array [ReqPrim (Str ''chicken'')]",
         THEN conjunct2, THEN conjunct1, THEN mp, OF g, THEN conjunct2, THEN conjunct2, THEN mp, OF ck,
         THEN conjunct2, THEN conjunct2, THEN conjunct2, THEN conjunct2, THEN conjunct1]
        rf [of "ClassValue k"]
      by simp
  qed
  from one two three four five [of "ErrorSubclass ''MyError''"] five [of Error]
  show ?thesis by blast
qed
section \<open>The output target\<close>






section \<open>A falsy values argument\<close>





section \<open>The deferred result\<close>

lemma then_of_own: "map_of (props (obj_at h a)) ''then'' = Some v \<Longrightarrow> then_of h a = v"
  by (simp add: then_of.simps [of h a])

lemma not_thenable_without_then:
  assumes "map_of (props ob) ''then'' = None" and "proto ob = Builtin i"
  shows "\<not> is_thenable (h @ [ob]) (Ref (length h))"
  using assms by (simp add: is_thenable_def then_of.simps [of _ "length h"] obj_at_def)

text \<open>
  C9, in the form that holds.  \<open>validateAsync\<close> never raises: it always returns a
  deferred result.  When \<open>validate\<close> raises, the result is rejected with that very
  error.  When \<open>validate\<close> returns a value that is not a thenable, the result is
  fulfilled with that value; when it returns a thenable (the output object has a callable
  \<open>then\<close>), the result follows the thenable instead.  In particular, with the output
  target omitted and no failure, the result is fulfilled with the new object unless a
  parameter was extracted under the name \<open>then\<close>.
\<close>

theorem validateAsync_settles_with_the_outcome_of_validate:
  "(\<exists>h' s. validateAsync pv h paramsProvided reqs extractedParams opts = Inr (h', s))
   \<and> (validate pv h paramsProvided reqs extractedParams opts = (h', Inl e) \<longrightarrow>
        validateAsync pv h paramsProvided reqs extractedParams opts = Inr (h', Rejected e))
   \<and> (validate pv h paramsProvided reqs extractedParams opts = (h', Inr v)
        \<and> \<not> is_thenable h' v \<longrightarrow>
        validateAsync pv h paramsProvided reqs extractedParams opts = Inr (h', Fulfilled v))
   \<and> (validate pv h paramsProvided reqs extractedParams opts = (h', Inr v)
        \<and> is_thenable h' v \<longrightarrow>
        validateAsync pv h paramsProvided reqs extractedParams opts = Inr (h', Follows v))
   \<and> ((extractedParams = Prim Undefined \<or> extractedParams = Prim Null)
        \<and> getValidationErrorSubclass h opts = Inr c
        \<and> truthy paramsProvided \<and> paramsProvided \<noteq> Ref (length h)
        \<and> list_all callable_entries rs \<and> accepted_addPrefix opts
        \<and> concat (map (failure_messages pv h paramsProvided) rs) = []
        \<and> ''then'' \<notin> (\<lambda>n. prefix_of opts @ n)
                         ` set (concat (map (extracted_names pv h paramsProvided) rs)) \<longrightarrow>
        (\<exists>ob. validateAsync pv h paramsProvided (Array rs) extractedParams opts =
                 Inr (h @ [ob], Fulfilled (Ref (length h)))))"
proof (intro conjI impI)
  show "\<exists>h' s. validateAsync pv h paramsProvided reqs extractedParams opts = Inr (h', s)"
    by (cases "validate pv h paramsProvided reqs extractedParams opts")
       (simp add: validateAsync_def settle_def split: sum.splits)
next
  assume "validate pv h paramsProvided reqs extractedParams opts = (h', Inl e)"
  then show "validateAsync pv h paramsProvided reqs extractedParams opts = Inr (h', Rejected e)"
    by (simp add: validateAsync_def settle_def)
next
  assume "validate pv h paramsProvided reqs extractedParams opts = (h', Inr v) \<and> \<not> is_thenable h' v"
  then show "validateAsync pv h paramsProvided reqs extractedParams opts = Inr (h', Fulfilled v)"
    by (simp add: validateAsync_def settle_def)
next
  assume "validate pv h paramsProvided reqs extractedParams opts = (h', Inr v) \<and> is_thenable h' v"
  then show "validateAsync pv h paramsProvided reqs extractedParams opts = Inr (h', Follows v)"
    by (simp add: validateAsync_def settle_def)
next
  let ?N = "set (concat (map (extracted_names pv h paramsProvided) rs))"
  assume a: "(extractedParams = Prim Undefined \<or> extractedParams = Prim Null)
        \<and> getValidationErrorSubclass h opts = Inr c
        \<and> truthy paramsProvided \<and> paramsProvided \<noteq> Ref (length h)
        \<and> list_all callable_entries rs \<and> accepted_addPrefix opts
        \<and> concat (map (failure_messages pv h paramsProvided) rs) = []
        \<and> ''then'' \<notin> (\<lambda>n. prefix_of opts @ n) ` ?N"
  from validate_fresh_target [of extractedParams h opts c paramsProvided rs pv] a obtain ob where
    v: "validate pv h paramsProvided (Array rs) extractedParams opts = (h @ [ob], Inr (Ref (length h)))"
       "map_of (props ob) = merged (prefix_of opts) (prop_value h paramsProvided) ?N Map.empty"
       "proto ob = Builtin ObjectPrototype"
    by auto
  have "map_of (props ob) ''then'' = None"
    unfolding v(2) using a by (simp add: merged_def)
  from not_thenable_without_then [OF this v(3), of h]
  have "validateAsync pv h paramsProvided (Array rs) extractedParams opts =
          Inr (h @ [ob], Fulfilled (Ref (length h)))"
    using v(1) by (simp add: validateAsync_def settle_def)
  then show "\<exists>ob. validateAsync pv h paramsProvided (Array rs) extractedParams opts =
                 Inr (h @ [ob], Fulfilled (Ref (length h)))"
    by blast
qed

text \<open>
  For every argument list, C9 as stated does not hold: here \<open>validate\<close> returns the
  new object \<open>{then: f}\<close> with \<open>f\<close> a function, and the deferred result is not
  fulfilled with that object.
\<close>

theorem validateAsync_settles_with_the_outcome_of_validate_counterexample:
  "validate parameterValidator [someFunction, withThen] (Ref 1) (Array [ReqPrim (Str ''then'')])
     (Prim Undefined) default_options =
     ([someFunction, withThen, empty_object\<lparr>props := [(''then'', Ref 0)]\<rparr>], Inr (Ref 2))
   \<and> validateAsync parameterValidator [someFunction, withThen] (Ref 1)
       (Array [ReqPrim (Str ''then'')]) (Prim Undefined) default_options =
     Inr ([someFunction, withThen, empty_object\<lparr>props := [(''then'', Ref 0)]\<rparr>], Follows (Ref 2))"
proof -
  have pv: "prop_value [someFunction, withThen] (Ref (Suc 0)) ''then'' = Ref 0"
    by (simp add: prop_value_def lookup_own obj_at_def withThen_def)
  have v: "validate parameterValidator [someFunction, withThen] (Ref 1)
             (Array [ReqPrim (Str ''then'')]) (Prim Undefined) default_options =
           ([someFunction, withThen, empty_object\<lparr>props := [(''then'', Ref 0)]\<rparr>], Inr (Ref 2))"
    using validate_single_string [of "Ref 1" "''then''" parameterValidator "[someFunction, withThen]"]
    by (simp add: pv parameterValidator_def defaultValidation_def isDefined_def)
  have "then_of [someFunction, withThen, empty_object\<lparr>props := [(''then'', Ref 0)]\<rparr>] 2 = Ref 0"
    by (rule then_of_own) (simp add: obj_at_def)
  then have t: "is_thenable [someFunction, withThen, empty_object\<lparr>props := [(''then'', Ref 0)]\<rparr>] (Ref 2)"
    by (simp add: is_thenable_def obj_at_def someFunction_def)
  show ?thesis using v t by (simp add: validateAsync_def settle_def)
qed

theorem validateAsync_settles_with_the_outcome_of_validate_witness:
  "(\<exists>ob. validateAsync parameterValidator [fourAnimals] (Ref 0)
           (Array [ReqPrim (Str ''cat''), ReqPrim (Str ''dog'')]) (Prim Undefined) default_options =
         Inr ([fourAnimals, ob], Fulfilled (Ref 1)))
   \<and> validateAsync parameterValidator [fourAnimals] (Ref 0) NotArray (Prim Undefined)
        default_options =
      Inr ([fourAnimals, empty_object], Rejected (Throw Error ''paramRequirements must be an array.''))"
proof -
  have pv: "prop_value [fourAnimals] (Ref 0) ''cat'' = Prim (Str ''Garfield'')"
    "prop_value [fourAnimals] (Ref 0) ''dog'' = Prim (Str ''Jake'')"
    by (simp_all add: prop_value_def lookup_own obj_at_def fourAnimals_def)
  have f: "concat (map (failure_messages parameterValidator [fourAnimals] (Ref 0))
             [ReqPrim (Str ''cat''), ReqPrim (Str ''dog'')]) = []"
    by (simp add: pv parameterValidator_def defaultValidation_def isDefined_def)
  have en: "concat (map (extracted_names parameterValidator [fourAnimals] (Ref 0))
              [ReqPrim (Str ''cat''), ReqPrim (Str ''dog'')]) = [''cat'', ''dog'']"
    by (simp add: pv parameterValidator_def defaultValidation_def isDefined_def)
  have ap: "accepted_addPrefix default_options" "prefix_of default_options = []"
    by (simp_all add: accepted_addPrefix_def prefix_of_def)
  have ce: "list_all callable_entries [ReqPrim (Str ''cat''), ReqPrim (Str ''dog'')]"
    by (simp add: callable_entries_def)
  have c: "getValidationErrorSubclass [fourAnimals] default_options = Inr ParameterValidationError"
    by simp
  have one: "\<exists>ob. validateAsync parameterValidator [fourAnimals] (Ref 0)
           (Array [ReqPrim (Str ''cat''), ReqPrim (Str ''dog'')]) (Prim Undefined) default_options =
         Inr ([fourAnimals, ob], Fulfilled (Ref 1))"
    using validateAsync_settles_with_the_outcome_of_validate
      [where pv = parameterValidator and h = "[fourAnimals]" and paramsProvided = "Ref 0"
         and extractedParams = "Prim Undefined" and opts = default_options
         and c = ParameterValidationError
         and rs = "[ReqPrim (Str ''cat''), ReqPrim (Str ''dog'')]",
       THEN conjunct2, THEN conjunct2, THEN conjunct2, THEN conjunct2]
      c ce ap f
    by (simp only: en) simp
  have n: "validate parameterValidator [fourAnimals] (Ref 0) NotArray (Prim Undefined)
             default_options =
           ([fourAnimals, empty_object], Inl (Throw Error ''paramRequirements must be an array.''))"
    by (simp add: validate_def getExtractedParamsObject_def)
  have two: "validateAsync parameterValidator [fourAnimals] (Ref 0) NotArray (Prim Undefined)
        default_options =
      Inr ([fourAnimals, empty_object], Rejected (Throw Error ''paramRequirements must be an array.''))"
    using validateAsync_settles_with_the_outcome_of_validate
      [where pv = parameterValidator and h = "[fourAnimals]" and paramsProvided = "Ref 0"
         and extractedParams = "Prim Undefined" and opts = default_options and reqs = NotArray
         and h' = "[fourAnimals, empty_object]"
         and e = "Throw Error ''paramRequirements must be an array.''",
       THEN conjunct2, THEN conjunct1] n
    by simp
  from one two show ?thesis by blast
qed

end
